theory Spec2Isabelle
  imports Main "HOL-Library.Word"
begin

section \<open>Machine types, memory and the runtime interface\<close>

text \<open>
  \<^verbatim>\<open>net.h\<close> is a header of inline C++ over the C runtime (\<^verbatim>\<open>runtime/tcp.h\<close>,
  \<^verbatim>\<open>runtime/udp.h\<close>). \<^verbatim>\<open>size_t\<close> and \<^verbatim>\<open>ssize_t\<close> are 64-bit; a \<^verbatim>\<open>ssize_t\<close> is
  read with \<open>sint\<close> (\<open><=s\<close>, \<open><s\<close>), a \<^verbatim>\<open>size_t\<close> with \<open>unat\<close>, and the implicit
  conversions between the two (\<^verbatim>\<open>n += ret\<close>, \<^verbatim>\<open>return n\<close>) keep the bit pattern.
\<close>

type_synonym byte = "8 word"
type_synonym size_t = "64 word"
type_synonym ssize_t = "64 word"

text \<open>
  A failed \<^verbatim>\<open>assert\<close> (the header is read as compiled without \<^verbatim>\<open>NDEBUG\<close>) and a
  \<^verbatim>\<open>BUG_ON\<close> whose condition holds end the process; a call that reaches one has
  the outcome \<open>Inl\<close>, a call that returns \<open>r\<close> has the outcome \<open>Inr r\<close>.
\<close>

datatype failure = AssertionFailed | BugOn

text \<open>
  A pointer is either an address in the caller's memory or an index into the
  connection's private scratch array \<^verbatim>\<open>buf_\<close> (\<^verbatim>\<open>&buf_[i]\<close>). The array is a private
  member, so no \<^verbatim>\<open>iovec\<close> of a caller can point into it: an \<^verbatim>\<open>iov_base\<close> is an
  address of the caller's memory.
\<close>

datatype ptr = Caller nat | Scratch nat

fun ptr_add :: "ptr \<Rightarrow> nat \<Rightarrow> ptr" where
  "ptr_add (Caller a) k = Caller (a + k)"
| "ptr_add (Scratch i) k = Scratch (i + k)"

record iovec =
  iov_base :: nat
  iov_len :: size_t

text \<open>
  The calls into the C runtime are the observable events of a run; each wrapper
  appends the call it makes (what was requested, the two hints, what came back).
\<close>

datatype event =
    CallRead size_t bool bool ssize_t
  | CallWrite size_t bool bool ssize_t
  | CallReadv "size_t list" bool bool ssize_t
  | CallWritev "size_t list" bool bool ssize_t

text \<open>
  The runtime's primitives are not part of the header; they are parameters.
  \<open>tcp_read c len nt poll\<close> is \<^verbatim>\<open>__tcp_read(c_, buf, len, nt, poll)\<close>: it yields the
  return value, the bytes it put at \<^verbatim>\<open>buf\<close> and the connection's next state.
  \<open>tcp_write\<close> is given the \<^verbatim>\<open>len\<close> bytes at \<^verbatim>\<open>buf\<close>. The vectored primitives see
  the segment lengths, respectively the segments' bytes.
\<close>

record 'c runtime =
  tcp_read :: "'c \<Rightarrow> size_t \<Rightarrow> bool \<Rightarrow> bool \<Rightarrow> ssize_t \<times> byte list \<times> 'c"
  tcp_write :: "'c \<Rightarrow> byte list \<Rightarrow> bool \<Rightarrow> bool \<Rightarrow> ssize_t \<times> 'c"
  tcp_readv :: "'c \<Rightarrow> size_t list \<Rightarrow> bool \<Rightarrow> bool \<Rightarrow> ssize_t \<times> byte list \<times> 'c"
  tcp_writev :: "'c \<Rightarrow> byte list list \<Rightarrow> bool \<Rightarrow> bool \<Rightarrow> ssize_t \<times> 'c"

text \<open>
  The state a \<^verbatim>\<open>TcpConn\<close> member function works on: the connection \<^verbatim>\<open>c_\<close>
  (\<open>conn_c\<close>: an Isabelle name cannot end in an underscore), the scratch array
  \<^verbatim>\<open>buf_\<close> (\<open>conn_buf\<close>), the caller's memory and the calls made so far. Both
  memories are maps from an index to a byte; \<^verbatim>\<open>buf_\<close> is the indices below
  \<open>kIOVCopyThresh\<close>, and an index from there on is what follows the array.
\<close>

record 'c world =
  conn_c :: 'c
  conn_buf :: "nat \<Rightarrow> byte"
  mem :: "nat \<Rightarrow> byte"
  trace :: "event list"

definition kIOVCopyThresh :: size_t where
  "kIOVCopyThresh = 128"

definition poke :: "(nat \<Rightarrow> byte) \<Rightarrow> nat \<Rightarrow> byte list \<Rightarrow> nat \<Rightarrow> byte" where
  "poke m a bs = (\<lambda>x. if a \<le> x \<and> x < a + length bs then bs ! (x - a) else m x)"

definition peek :: "(nat \<Rightarrow> byte) \<Rightarrow> nat \<Rightarrow> nat \<Rightarrow> byte list" where
  "peek m a n = map (\<lambda>i. m (a + i)) [0..<n]"

fun load :: "ptr \<Rightarrow> nat \<Rightarrow> 'c world \<Rightarrow> byte list" where
  "load (Caller a) n s = peek (mem s) a n"
| "load (Scratch i) n s = peek (conn_buf s) i n"

fun store :: "ptr \<Rightarrow> byte list \<Rightarrow> 'c world \<Rightarrow> 'c world" where
  "store (Caller a) bs s = s\<lparr>mem := poke (mem s) a bs\<rparr>"
| "store (Scratch i) bs s = s\<lparr>conn_buf := poke (conn_buf s) i bs\<rparr>"

text \<open>\<^verbatim>\<open>memcpy(dst, src, n)\<close>; source and destination never share a region here.\<close>

definition memcpy :: "ptr \<Rightarrow> ptr \<Rightarrow> size_t \<Rightarrow> 'c world \<Rightarrow> 'c world" where
  "memcpy dst src n s = store dst (load src (unat n) s) s"

section \<open>TcpConn: Read, Write, ReadFull, WriteFull\<close>

definition Read :: "'c runtime \<Rightarrow> ptr \<Rightarrow> size_t \<Rightarrow> bool \<Rightarrow> bool \<Rightarrow> 'c world \<Rightarrow> ssize_t \<times> 'c world" where
  "Read rt buf len nt poll s =
     (case tcp_read rt (conn_c s) len nt poll of
        (ret, bs, c') \<Rightarrow>
          (ret, store buf bs (s\<lparr>conn_c := c', trace := trace s @ [CallRead len nt poll ret]\<rparr>)))"

definition Write :: "'c runtime \<Rightarrow> ptr \<Rightarrow> size_t \<Rightarrow> bool \<Rightarrow> bool \<Rightarrow> 'c world \<Rightarrow> ssize_t \<times> 'c world" where
  "Write rt buf len nt poll s =
     (case tcp_write rt (conn_c s) (load buf (unat len) s) nt poll of
        (ret, c') \<Rightarrow>
          (ret, s\<lparr>conn_c := c', trace := trace s @ [CallWrite len nt poll ret]\<rparr>))"

text \<open>
  The loop of \<^verbatim>\<open>ReadFull\<close>, from \<^verbatim>\<open>n\<close> bytes done. \<^verbatim>\<open>n += ret\<close> is an addition of
  \<^verbatim>\<open>size_t\<close>, so a runtime that hands back more than was asked for can make \<^verbatim>\<open>n\<close>
  wrap and the loop run on: the loop is a partial function, \<open>None\<close> when it
  never ends.
\<close>

partial_function (option) ReadFull_loop ::
  "'c runtime \<Rightarrow> ptr \<Rightarrow> size_t \<Rightarrow> bool \<Rightarrow> bool \<Rightarrow> size_t \<Rightarrow> 'c world \<Rightarrow> ((failure + ssize_t) \<times> 'c world) option"
where
  "ReadFull_loop rt pos len nt poll n s =
     (if n < len then
        (case Read rt (ptr_add pos (unat n)) (len - n) nt poll s of
           (ret, s1) \<Rightarrow>
             if ret <=s 0 then Some (Inr ret, s1)
             else ReadFull_loop rt pos len nt poll (n + ret) s1)
      else if n = len then Some (Inr n, s)
      else Some (Inl AssertionFailed, s))"

definition ReadFull ::
  "'c runtime \<Rightarrow> ptr \<Rightarrow> size_t \<Rightarrow> bool \<Rightarrow> bool \<Rightarrow> 'c world \<Rightarrow> ((failure + ssize_t) \<times> 'c world) option"
where
  "ReadFull rt buf len nt poll s = ReadFull_loop rt buf len nt poll 0 s"

partial_function (option) WriteFull_loop ::
  "'c runtime \<Rightarrow> ptr \<Rightarrow> size_t \<Rightarrow> bool \<Rightarrow> bool \<Rightarrow> size_t \<Rightarrow> 'c world \<Rightarrow> ((failure + ssize_t) \<times> 'c world) option"
where
  "WriteFull_loop rt pos len nt poll n s =
     (if n < len then
        (case Write rt (ptr_add pos (unat n)) (len - n) nt poll s of
           (ret, s1) \<Rightarrow>
             if ret <s 0 then Some (Inr ret, s1)
             else if \<not> 0 <s ret then Some (Inl AssertionFailed, s1)
             else WriteFull_loop rt pos len nt poll (n + ret) s1)
      else if n = len then Some (Inr n, s)
      else Some (Inl AssertionFailed, s))"

definition WriteFull ::
  "'c runtime \<Rightarrow> ptr \<Rightarrow> size_t \<Rightarrow> bool \<Rightarrow> bool \<Rightarrow> 'c world \<Rightarrow> ((failure + ssize_t) \<times> 'c world) option"
where
  "WriteFull rt buf len nt poll s = WriteFull_loop rt buf len nt poll 0 s"

declare ReadFull_loop.simps [code]
declare WriteFull_loop.simps [code]

section \<open>detail: scatter and gather\<close>

text \<open>
  \<^verbatim>\<open>general_scatter_gather<Scatter, Extent>(buf, offset, iov)\<close> recurses on the
  extent: it copies the front segment and goes on with the last \<^verbatim>\<open>Extent - 1\<close>
  segments at \<^verbatim>\<open>offset + iovec.iov_len\<close> (an addition of \<^verbatim>\<open>size_t\<close>).
\<close>

fun general_scatter_gather :: "bool \<Rightarrow> ptr \<Rightarrow> size_t \<Rightarrow> iovec list \<Rightarrow> 'c world \<Rightarrow> 'c world" where
  "general_scatter_gather Scatter buf offset [] s = s"
| "general_scatter_gather Scatter buf offset (v # iov) s =
     general_scatter_gather Scatter buf (offset + iov_len v) iov
       (if Scatter then memcpy (Caller (iov_base v)) (ptr_add buf (unat offset)) (iov_len v) s
        else memcpy (ptr_add buf (unat offset)) (Caller (iov_base v)) (iov_len v) s)"

definition scatter_to :: "ptr \<Rightarrow> iovec list \<Rightarrow> 'c world \<Rightarrow> 'c world" where
  "scatter_to buf iov s = general_scatter_gather True buf 0 iov s"

definition gather_from :: "ptr \<Rightarrow> iovec list \<Rightarrow> 'c world \<Rightarrow> 'c world" where
  "gather_from buf iov s = general_scatter_gather False buf 0 iov s"

section \<open>TcpConn: the vectored calls\<close>

text \<open>
  A \<^verbatim>\<open>std::span<const iovec, Extent>\<close>: \<open>Static xs\<close> has the extent \<open>length xs\<close> in
  its type, \<open>Dynamic xs\<close> has \<^verbatim>\<open>std::dynamic_extent\<close>.
\<close>

datatype iov_span = Static "iovec list" | Dynamic "iovec list"

text \<open>
  \<^verbatim>\<open>Readv\<close> and \<^verbatim>\<open>Writev\<close> pass the segments to \<^verbatim>\<open>__tcp_readv\<close> and \<^verbatim>\<open>__tcp_writev\<close>.
  Modelled from the spec: what the native vectored read does with the bytes it
  delivers is not in the sources; by the spec (6) it follows the standard
  scatter semantics, so \<open>scatter_bytes\<close> fills the segments in list order, each
  up to its length.
\<close>

fun scatter_bytes :: "iovec list \<Rightarrow> byte list \<Rightarrow> 'c world \<Rightarrow> 'c world" where
  "scatter_bytes [] bs s = s"
| "scatter_bytes (v # iov) bs s =
     scatter_bytes iov (drop (unat (iov_len v)) bs)
       (store (Caller (iov_base v)) (take (unat (iov_len v)) bs) s)"

definition seg_bytes :: "'c world \<Rightarrow> iovec \<Rightarrow> byte list" where
  "seg_bytes s v = load (Caller (iov_base v)) (unat (iov_len v)) s"

definition Readv :: "'c runtime \<Rightarrow> iovec list \<Rightarrow> bool \<Rightarrow> bool \<Rightarrow> 'c world \<Rightarrow> ssize_t \<times> 'c world" where
  "Readv rt iov nt poll s =
     (case tcp_readv rt (conn_c s) (map iov_len iov) nt poll of
        (ret, bs, c') \<Rightarrow>
          (ret, scatter_bytes iov bs
                  (s\<lparr>conn_c := c', trace := trace s @ [CallReadv (map iov_len iov) nt poll ret]\<rparr>)))"

definition Writev :: "'c runtime \<Rightarrow> iovec list \<Rightarrow> bool \<Rightarrow> bool \<Rightarrow> 'c world \<Rightarrow> ssize_t \<times> 'c world" where
  "Writev rt iov nt poll s =
     (case tcp_writev rt (conn_c s) (map (seg_bytes s) iov) nt poll of
        (ret, c') \<Rightarrow>
          (ret, s\<lparr>conn_c := c', trace := trace s @ [CallWritev (map iov_len iov) nt poll ret]\<rparr>))"

text \<open>The lengths of a segment list summed as numbers, without wrap-around.\<close>

definition pending :: "iovec list \<Rightarrow> nat" where
  "pending iov = sum_list (map (\<lambda>v. unat (iov_len v)) iov)"

text \<open>
  Modelled from the spec: \<^verbatim>\<open>ReadvFullRaw\<close> and \<^verbatim>\<open>WritevFullRaw\<close> are declared in
  \<^verbatim>\<open>net.h\<close> (lines 290 and 291) and defined in a file that is not among the
  sources. The spec (4.2): issue the native vector call with the current
  segment list; on partial completion advance past the fully consumed segments
  and trim the first partially consumed one; repeat until the total requested
  length is satisfied or an end or error condition occurs; the scratch buffer
  is never used. \<open>advance iov k\<close> is the segment list after \<open>k\<close> bytes were moved.
\<close>

fun advance :: "iovec list \<Rightarrow> nat \<Rightarrow> iovec list" where
  "advance [] k = []"
| "advance (v # iov) k =
     (if unat (iov_len v) \<le> k then advance iov (k - unat (iov_len v))
      else v\<lparr>iov_base := iov_base v + k, iov_len := iov_len v - of_nat k\<rparr> # iov)"

text \<open>
  Modelled from the spec: the loop of \<^verbatim>\<open>ReadvFullRaw\<close> (spec 4.2, as above);
  \<open>whole\<close> is the total requested length, the value of a satisfied call.
\<close>

partial_function (option) ReadvFullRaw_loop ::
  "'c runtime \<Rightarrow> bool \<Rightarrow> bool \<Rightarrow> ssize_t \<Rightarrow> iovec list \<Rightarrow> 'c world \<Rightarrow> ((failure + ssize_t) \<times> 'c world) option"
where
  "ReadvFullRaw_loop rt nt poll whole iov s =
     (case Readv rt iov nt poll s of
        (ret, s1) \<Rightarrow>
          if ret <=s 0 then Some (Inr ret, s1)
          else if pending iov \<le> unat ret then Some (Inr whole, s1)
          else ReadvFullRaw_loop rt nt poll whole (advance iov (unat ret)) s1)"

text \<open>Modelled from the spec: the loop of \<^verbatim>\<open>WritevFullRaw\<close> (spec 4.2, as above).\<close>

partial_function (option) WritevFullRaw_loop ::
  "'c runtime \<Rightarrow> bool \<Rightarrow> bool \<Rightarrow> ssize_t \<Rightarrow> iovec list \<Rightarrow> 'c world \<Rightarrow> ((failure + ssize_t) \<times> 'c world) option"
where
  "WritevFullRaw_loop rt nt poll whole iov s =
     (case Writev rt iov nt poll s of
        (ret, s1) \<Rightarrow>
          if ret <=s 0 then Some (Inr ret, s1)
          else if pending iov \<le> unat ret then Some (Inr whole, s1)
          else WritevFullRaw_loop rt nt poll whole (advance iov (unat ret)) s1)"

declare ReadvFullRaw_loop.simps [code]
declare WritevFullRaw_loop.simps [code]

text \<open>Modelled from the spec: \<^verbatim>\<open>ReadvFullRaw\<close> (declared at \<^verbatim>\<open>net.h\<close> line 291).\<close>

definition ReadvFullRaw ::
  "'c runtime \<Rightarrow> iovec list \<Rightarrow> bool \<Rightarrow> bool \<Rightarrow> 'c world \<Rightarrow> ((failure + ssize_t) \<times> 'c world) option"
where
  "ReadvFullRaw rt iov nt poll s = ReadvFullRaw_loop rt nt poll (of_nat (pending iov)) iov s"

text \<open>Modelled from the spec: \<^verbatim>\<open>WritevFullRaw\<close> (declared at \<^verbatim>\<open>net.h\<close> line 290).\<close>

definition WritevFullRaw ::
  "'c runtime \<Rightarrow> iovec list \<Rightarrow> bool \<Rightarrow> bool \<Rightarrow> 'c world \<Rightarrow> ((failure + ssize_t) \<times> 'c world) option"
where
  "WritevFullRaw rt iov nt poll s = WritevFullRaw_loop rt nt poll (of_nat (pending iov)) iov s"

text \<open>
  \<^verbatim>\<open>std::accumulate\<close> over the segment lengths, from \<^verbatim>\<open>static_cast<std::size_t>(0)\<close>.
\<close>

definition total_len :: "iovec list \<Rightarrow> size_t" where
  "total_len iov = foldl (\<lambda>s a. s + iov_len a) 0 iov"

text \<open>
  \<^verbatim>\<open>ReadvFull\<close> and \<^verbatim>\<open>WritevFull\<close>. Both \<^verbatim>\<open>if constexpr\<close> tests read the type: a
  dynamic extent goes to the raw call at once. When \<^verbatim>\<open>ReadFull\<close> ends the process
  there is no scatter.
\<close>

definition ReadvFull ::
  "'c runtime \<Rightarrow> iov_span \<Rightarrow> bool \<Rightarrow> bool \<Rightarrow> 'c world \<Rightarrow> ((failure + ssize_t) \<times> 'c world) option"
where
  "ReadvFull rt iov nt poll s =
     (case iov of
        Dynamic xs \<Rightarrow> ReadvFullRaw rt xs nt poll s
      | Static xs \<Rightarrow>
          if length xs = 1 then
            ReadFull rt (Caller (iov_base (xs ! 0))) (iov_len (xs ! 0)) nt poll s
          else if total_len xs \<le> kIOVCopyThresh then
            (case ReadFull rt (Scratch 0) (total_len xs) nt poll s of
               None \<Rightarrow> None
             | Some (Inl f, s1) \<Rightarrow> Some (Inl f, s1)
             | Some (Inr ret, s1) \<Rightarrow> Some (Inr ret, scatter_to (Scratch 0) xs s1))
          else ReadvFullRaw rt xs nt poll s)"

definition WritevFull ::
  "'c runtime \<Rightarrow> iov_span \<Rightarrow> bool \<Rightarrow> bool \<Rightarrow> 'c world \<Rightarrow> ((failure + ssize_t) \<times> 'c world) option"
where
  "WritevFull rt iov nt poll s =
     (case iov of
        Dynamic xs \<Rightarrow> WritevFullRaw rt xs nt poll s
      | Static xs \<Rightarrow>
          if length xs = 1 then
            WriteFull rt (Caller (iov_base (xs ! 0))) (iov_len (xs ! 0)) nt poll s
          else if total_len xs \<le> kIOVCopyThresh then
            WriteFull rt (Scratch 0) (total_len xs) nt poll (gather_from (Scratch 0) xs s)
          else WritevFullRaw rt xs nt poll s)"

text \<open>
  The overloads on \<^verbatim>\<open>(const iovec *iov, int iovcnt)\<close> build
  \<^verbatim>\<open>std::span{iov, static_cast<size_t>(iovcnt)}\<close>, whose extent is dynamic. The
  list \<open>iov\<close> is the array at the pointer; a count beyond it reads past the
  array in C++ and takes the whole list here.
\<close>

definition ReadvFull_ptr ::
  "'c runtime \<Rightarrow> iovec list \<Rightarrow> 32 word \<Rightarrow> bool \<Rightarrow> bool \<Rightarrow> 'c world \<Rightarrow> ((failure + ssize_t) \<times> 'c world) option"
where
  "ReadvFull_ptr rt iov iovcnt nt poll s =
     ReadvFull rt (Dynamic (take (unat (scast iovcnt :: size_t)) iov)) nt poll s"

definition WritevFull_ptr ::
  "'c runtime \<Rightarrow> iovec list \<Rightarrow> 32 word \<Rightarrow> bool \<Rightarrow> bool \<Rightarrow> 'c world \<Rightarrow> ((failure + ssize_t) \<times> 'c world) option"
where
  "WritevFull_ptr rt iov iovcnt nt poll s =
     WritevFull rt (Dynamic (take (unat (scast iovcnt :: size_t)) iov)) nt poll s"

section \<open>UdpConn: Read and Write\<close>

text \<open>
  \<^verbatim>\<open>udp_read(c_, buf, len)\<close> and \<^verbatim>\<open>udp_write(c_, buf, len)\<close> take no hints.
  \<^verbatim>\<open>BUG_ON(cond)\<close> ends the process when \<open>cond\<close> holds.
\<close>

record 'u udp_runtime =
  udp_read :: "'u \<Rightarrow> size_t \<Rightarrow> ssize_t \<times> byte list \<times> 'u"
  udp_write :: "'u \<Rightarrow> byte list \<Rightarrow> ssize_t \<times> 'u"

datatype udp_event = CallUdpRead size_t ssize_t | CallUdpWrite size_t ssize_t

record 'u udp_world =
  udp_c :: 'u
  udp_mem :: "nat \<Rightarrow> byte"
  udp_trace :: "udp_event list"

definition UdpConn_Read ::
  "'u udp_runtime \<Rightarrow> nat \<Rightarrow> size_t \<Rightarrow> bool \<Rightarrow> bool \<Rightarrow> 'u udp_world \<Rightarrow> (failure + ssize_t) \<times> 'u udp_world"
where
  "UdpConn_Read rt buf len nt poll s =
     (if nt \<or> poll then (Inl BugOn, s)
      else case udp_read rt (udp_c s) len of
        (ret, bs, c') \<Rightarrow>
          (Inr ret, s\<lparr>udp_c := c', udp_mem := poke (udp_mem s) buf bs,
                      udp_trace := udp_trace s @ [CallUdpRead len ret]\<rparr>))"

definition UdpConn_Write ::
  "'u udp_runtime \<Rightarrow> nat \<Rightarrow> size_t \<Rightarrow> bool \<Rightarrow> bool \<Rightarrow> 'u udp_world \<Rightarrow> (failure + ssize_t) \<times> 'u udp_world"
where
  "UdpConn_Write rt buf len nt poll s =
     (if nt \<or> poll then (Inl BugOn, s)
      else case udp_write rt (udp_c s) (peek (udp_mem s) buf (unat len)) of
        (ret, c') \<Rightarrow>
          (Inr ret, s\<lparr>udp_c := c', udp_trace := udp_trace s @ [CallUdpWrite len ret]\<rparr>))"

section \<open>What a run shows of the runtime\<close>

fun ret_of :: "event \<Rightarrow> ssize_t" where
  "ret_of (CallRead len nt poll r) = r"
| "ret_of (CallWrite len nt poll r) = r"
| "ret_of (CallReadv lens nt poll r) = r"
| "ret_of (CallWritev lens nt poll r) = r"

fun is_read :: "event \<Rightarrow> bool" where
  "is_read (CallRead len nt poll r) = True"
| "is_read e = False"

fun is_write :: "event \<Rightarrow> bool" where
  "is_write (CallWrite len nt poll r) = True"
| "is_write e = False"

definition progress :: "event \<Rightarrow> bool" where
  "progress e \<longleftrightarrow> 0 <s ret_of e"

text \<open>
  The contract of the scalar primitives: a positive return value is a number of
  bytes moved, at most the number asked for.
\<close>

definition tcp_read_bounded :: "'c runtime \<Rightarrow> bool" where
  "tcp_read_bounded rt \<longleftrightarrow>
     (\<forall>c len nt poll. 0 <s fst (tcp_read rt c len nt poll) \<longrightarrow> fst (tcp_read rt c len nt poll) \<le> len)"

definition tcp_write_bounded :: "'c runtime \<Rightarrow> bool" where
  "tcp_write_bounded rt \<longleftrightarrow>
     (\<forall>c bs nt poll. 0 <s fst (tcp_write rt c bs nt poll) \<longrightarrow>
        unat (fst (tcp_write rt c bs nt poll)) \<le> length bs)"

section \<open>Segments\<close>

text \<open>
  \<open>offset_of xs i\<close> is the sum of the lengths of the segments before the
  \<open>i\<close>-th. Two segments are apart when they share no byte.
\<close>

definition offset_of :: "iovec list \<Rightarrow> nat \<Rightarrow> nat" where
  "offset_of xs i = pending (take i xs)"

definition apart :: "iovec \<Rightarrow> iovec \<Rightarrow> bool" where
  "apart v w \<longleftrightarrow>
     iov_len v = 0 \<or> iov_len w = 0 \<or>
     iov_base v + unat (iov_len v) \<le> iov_base w \<or>
     iov_base w + unat (iov_len w) \<le> iov_base v"

fun disjoint_segs :: "iovec list \<Rightarrow> bool" where
  "disjoint_segs [] = True"
| "disjoint_segs (v # vs) = (list_all (apart v) vs \<and> disjoint_segs vs)"

text \<open>
  The scatter and the gather as the index-wise copies they are described as:
  for each index in list order, one \<^verbatim>\<open>memcpy\<close> between segment \<open>i\<close> and the scratch
  range that starts at \<open>offset_of xs i\<close>.
\<close>

definition scatter_by_index :: "iovec list \<Rightarrow> 'c world \<Rightarrow> 'c world" where
  "scatter_by_index xs s =
     fold (\<lambda>i. memcpy (Caller (iov_base (xs ! i))) (Scratch (offset_of xs i)) (iov_len (xs ! i)))
       [0..<length xs] s"

definition gather_by_index :: "iovec list \<Rightarrow> 'c world \<Rightarrow> 'c world" where
  "gather_by_index xs s =
     fold (\<lambda>i. memcpy (Scratch (offset_of xs i)) (Caller (iov_base (xs ! i))) (iov_len (xs ! i)))
       [0..<length xs] s"

text \<open>
  The small-total path: a static extent, more than one segment, and a total
  (as \<^verbatim>\<open>std::accumulate\<close> computes it) of at most \<open>kIOVCopyThresh\<close>.
\<close>

definition small_total_path :: "iov_span \<Rightarrow> bool" where
  "small_total_path iov =
     (case iov of
        Static xs \<Rightarrow> 1 < length xs \<and> total_len xs \<le> kIOVCopyThresh
      | Dynamic xs \<Rightarrow> False)"

section \<open>Runtimes to run the calls on\<close>

text \<open>
  \<open>pipe k\<close> is a loopback byte stream that moves at most \<open>k\<close> bytes per call: a
  read takes bytes from the front, a write appends, a read of the empty stream
  returns 0. \<open>scripted\<close> answers each call with the next entry of a script,
  whatever was asked; with it a run can meet an error or a runtime that breaks
  its contract.
\<close>

definition pipe :: "nat \<Rightarrow> byte list runtime" where
  "pipe k =
     \<lparr> tcp_read = (\<lambda>c len nt poll.
         let m = min k (min (unat len) (length c)) in (of_nat m, take m c, drop m c)),
       tcp_write = (\<lambda>c bs nt poll.
         let m = min k (length bs) in (of_nat m, c @ take m bs)),
       tcp_readv = (\<lambda>c lens nt poll.
         let m = min k (min (sum_list (map unat lens)) (length c)) in (of_nat m, take m c, drop m c)),
       tcp_writev = (\<lambda>c bss nt poll.
         let m = min k (length (concat bss)) in (of_nat m, c @ take m (concat bss))) \<rparr>"

definition scripted :: "(ssize_t \<times> byte list) list runtime" where
  "scripted =
     \<lparr> tcp_read = (\<lambda>c len nt poll. case c of [] \<Rightarrow> (0, [], []) | (ret, bs) # c' \<Rightarrow> (ret, bs, c')),
       tcp_write = (\<lambda>c bs nt poll. case c of [] \<Rightarrow> (0, []) | (ret, x) # c' \<Rightarrow> (ret, c')),
       tcp_readv = (\<lambda>c lens nt poll. case c of [] \<Rightarrow> (0, [], []) | (ret, bs) # c' \<Rightarrow> (ret, bs, c')),
       tcp_writev = (\<lambda>c bss nt poll. case c of [] \<Rightarrow> (0, []) | (ret, x) # c' \<Rightarrow> (ret, c')) \<rparr>"

definition world0 :: "'c \<Rightarrow> byte list \<Rightarrow> byte list \<Rightarrow> 'c world" where
  "world0 c scratch bytes =
     \<lparr> conn_c = c, conn_buf = poke (\<lambda>x. 0) 0 scratch, mem = poke (\<lambda>x. 0) 0 bytes, trace = [] \<rparr>"

definition udp_stub :: "unit udp_runtime" where
  "udp_stub = \<lparr> udp_read = (\<lambda>c len. (0, [], c)), udp_write = (\<lambda>c bs. (of_nat (length bs), c)) \<rparr>"

definition udp_world0 :: "'u \<Rightarrow> byte list \<Rightarrow> 'u udp_world" where
  "udp_world0 c bytes = \<lparr> udp_c = c, udp_mem = poke (\<lambda>x. 0) 0 bytes, udp_trace = [] \<rparr>"

section \<open>Lemmas\<close>

subsection \<open>Memory\<close>

lemma length_peek [simp]: "length (peek m a n) = n"
  by (simp add: peek_def)

lemma nth_peek [simp]: "i < n \<Longrightarrow> peek m a n ! i = m (a + i)"
  by (simp add: peek_def)

lemma peek_0 [simp]: "peek m a 0 = []"
  by (simp add: peek_def)

lemma peek_add: "peek m a (n + k) = peek m a n @ peek m (a + n) k"
  by (rule nth_equalityI) (auto simp: nth_append)

lemma peek_cong: "(\<And>i. i < n \<Longrightarrow> m (a + i) = m' (a' + i)) \<Longrightarrow> peek m a n = peek m' a' n"
  by (rule nth_equalityI) auto

lemma poke_outside: "x < a \<or> a + length bs \<le> x \<Longrightarrow> poke m a bs x = m x"
  by (auto simp: poke_def)

lemma poke_inside: "i < length bs \<Longrightarrow> poke m a bs (a + i) = bs ! i"
  by (simp add: poke_def)

lemma peek_poke_same: "length bs = n \<Longrightarrow> peek (poke m a bs) a n = bs"
  by (rule nth_equalityI) (auto simp: poke_inside)

lemma peek_poke_apart:
  "n = 0 \<or> length bs = 0 \<or> a + n \<le> a' \<or> a' + length bs \<le> a \<Longrightarrow>
   peek (poke m a' bs) a n = peek m a n"
  by (rule peek_cong) (auto simp: poke_def)

lemma store_trace [simp]: "trace (store p bs s) = trace s"
  by (cases p) simp_all

lemma store_conn_c [simp]: "conn_c (store p bs s) = conn_c s"
  by (cases p) simp_all

lemma store_Caller_buf [simp]: "conn_buf (store (Caller a) bs s) = conn_buf s"
  by simp

lemma memcpy_simps [simp]:
  "trace (memcpy dst src n s) = trace s"
  "conn_c (memcpy dst src n s) = conn_c s"
  "conn_buf (memcpy (Caller a) src n s) = conn_buf s"
  "mem (memcpy (Scratch j) src n s) = mem s"
  "mem (memcpy (Caller a) (Scratch j) n s) = poke (mem s) a (peek (conn_buf s) j (unat n))"
  "conn_buf (memcpy (Scratch j) (Caller a) n s) = poke (conn_buf s) j (peek (mem s) a (unat n))"
  by (simp_all add: memcpy_def)

subsection \<open>Sums of lengths\<close>

lemma pending_Nil [simp]: "pending [] = 0"
  by (simp add: pending_def)

lemma pending_Cons [simp]: "pending (v # vs) = unat (iov_len v) + pending vs"
  by (simp add: pending_def)

lemma offset_of_0 [simp]: "offset_of xs 0 = 0"
  by (simp add: offset_of_def)

lemma offset_of_Suc [simp]: "offset_of (v # vs) (Suc i) = unat (iov_len v) + offset_of vs i"
  by (simp add: offset_of_def)

lemma foldl_len: "foldl (\<lambda>s a. s + iov_len a) acc xs = acc + of_nat (pending xs)"
  by (induction xs arbitrary: acc) (simp_all add: add.assoc)

lemma total_len_pending: "total_len xs = of_nat (pending xs)"
  by (simp add: total_len_def foldl_len)

lemma unat_total_len: "pending xs < 2 ^ 64 \<Longrightarrow> unat (total_len xs) = pending xs"
  by (simp add: total_len_pending unat_of_nat)

lemma small_total: "pending xs \<le> 128 \<Longrightarrow> total_len xs \<le> kIOVCopyThresh"
  by (simp add: word_le_nat_alt unat_total_len kIOVCopyThresh_def)

lemma unat_offset_step:
  fixes off :: size_t
  shows "unat off + unat n < 2 ^ 64 \<Longrightarrow> unat (off + n) = unat off + unat n"
  by (simp add: unat_add_lem [THEN iffD1])

subsection \<open>Scatter\<close>

lemma scatter_fields [simp]:
  "conn_buf (general_scatter_gather True buf off xs s) = conn_buf s"
  "conn_c (general_scatter_gather b buf off xs s) = conn_c s"
  "trace (general_scatter_gather b buf off xs s) = trace s"
  by (induction xs arbitrary: off s) simp_all

lemma gather_mem [simp]:
  "mem (general_scatter_gather False (Scratch j) off xs s) = mem s"
  by (induction xs arbitrary: off s) simp_all

lemma scatter_keeps_segment:
  assumes "list_all (apart v) vs"
  shows "seg_bytes (general_scatter_gather True (Scratch j) off vs s) v = seg_bytes s v"
  using assms
proof (induction vs arbitrary: off s)
  case Nil
  then show ?case by simp
next
  case (Cons w ws)
  from Cons.prems have "apart v w" and rest: "list_all (apart v) ws" by simp_all
  then have "unat (iov_len v) = 0 \<or> unat (iov_len w) = 0 \<or>
      iov_base v + unat (iov_len v) \<le> iov_base w \<or> iov_base w + unat (iov_len w) \<le> iov_base v"
    by (auto simp: apart_def)
  then have "peek (poke (mem s) (iov_base w) (peek (conn_buf s) (j + unat off) (unat (iov_len w))))
      (iov_base v) (unat (iov_len v)) = peek (mem s) (iov_base v) (unat (iov_len v))"
    by (intro peek_poke_apart) auto
  then show ?case
    using Cons.IH [OF rest] by (simp add: seg_bytes_def)
qed

lemma scatter_outside:
  assumes "\<forall>v \<in> set xs. a < iov_base v \<or> iov_base v + unat (iov_len v) \<le> a"
  shows "mem (general_scatter_gather True (Scratch j) off xs s) a = mem s a"
  using assms by (induction xs arbitrary: off s) (simp_all add: poke_outside)

lemma scatter_segment:
  assumes "disjoint_segs xs" and "unat off + pending xs < 2 ^ 64" and "i < length xs"
  shows "seg_bytes (general_scatter_gather True (Scratch j) off xs s) (xs ! i) =
         peek (conn_buf s) (j + unat off + offset_of xs i) (unat (iov_len (xs ! i)))"
  using assms
proof (induction xs arbitrary: off s i)
  case Nil
  then show ?case by simp
next
  case (Cons v vs)
  let ?s2 = "memcpy (Caller (iov_base v)) (Scratch (j + unat off)) (iov_len v) s"
  from Cons.prems have nowrap: "unat (off + iov_len v) = unat off + unat (iov_len v)"
    by (intro unat_offset_step) simp
  show ?case
  proof (cases i)
    case 0
    from Cons.prems have "list_all (apart v) vs" by simp
    then have "seg_bytes (general_scatter_gather True (Scratch j) (off + iov_len v) vs ?s2) v
        = seg_bytes ?s2 v"
      by (rule scatter_keeps_segment)
    also have "\<dots> = peek (conn_buf s) (j + unat off) (unat (iov_len v))"
      by (simp add: seg_bytes_def peek_poke_same)
    finally show ?thesis using 0 by simp
  next
    case (Suc k)
    with Cons.prems have "disjoint_segs vs" "unat (off + iov_len v) + pending vs < 2 ^ 64" "k < length vs"
      by (simp_all add: nowrap)
    from Cons.IH [OF this, of ?s2] show ?thesis
      using Suc by (simp add: nowrap add.assoc)
  qed
qed

lemma scatter_concat:
  assumes "disjoint_segs xs" and "unat off + pending xs < 2 ^ 64"
  shows "concat (map (seg_bytes (general_scatter_gather True (Scratch j) off xs s)) xs) =
         peek (conn_buf s) (j + unat off) (pending xs)"
  using assms
proof (induction xs arbitrary: off s)
  case Nil
  then show ?case by simp
next
  case (Cons v vs)
  let ?s2 = "memcpy (Caller (iov_base v)) (Scratch (j + unat off)) (iov_len v) s"
  from Cons.prems have nowrap: "unat (off + iov_len v) = unat off + unat (iov_len v)"
    by (intro unat_offset_step) simp
  from Cons.prems have "list_all (apart v) vs" by simp
  then have "seg_bytes (general_scatter_gather True (Scratch j) (off + iov_len v) vs ?s2) v
      = seg_bytes ?s2 v"
    by (rule scatter_keeps_segment)
  also have "\<dots> = peek (conn_buf s) (j + unat off) (unat (iov_len v))"
    by (simp add: seg_bytes_def peek_poke_same)
  finally have front: "seg_bytes (general_scatter_gather True (Scratch j) (off + iov_len v) vs ?s2) v
      = peek (conn_buf s) (j + unat off) (unat (iov_len v))" .
  from Cons.prems have "disjoint_segs vs" "unat (off + iov_len v) + pending vs < 2 ^ 64"
    by (simp_all add: nowrap)
  from Cons.IH [OF this, of ?s2]
  have rear: "concat (map (seg_bytes (general_scatter_gather True (Scratch j) (off + iov_len v) vs ?s2)) vs)
      = peek (conn_buf s) (j + unat off + unat (iov_len v)) (pending vs)"
    by (simp add: nowrap add.assoc)
  show ?case
    using front rear by (simp add: peek_add)
qed

lemma upt_Suc_shift: "[0..<Suc n] = 0 # map Suc [0..<n]"
  by (simp add: upt_conv_Cons map_Suc_upt del: upt_Suc)

lemma scatter_index_wise:
  assumes "unat off + pending xs < 2 ^ 64"
  shows "general_scatter_gather True (Scratch j) off xs s =
         fold (\<lambda>i. memcpy (Caller (iov_base (xs ! i))) (Scratch (j + unat off + offset_of xs i)) (iov_len (xs ! i)))
           [0..<length xs] s"
  using assms
proof (induction xs arbitrary: off s)
  case Nil
  then show ?case by simp
next
  case (Cons v vs)
  from Cons.prems have nowrap: "unat (off + iov_len v) = unat off + unat (iov_len v)"
    by (intro unat_offset_step) simp
  from Cons.prems have "unat (off + iov_len v) + pending vs < 2 ^ 64"
    by (simp add: nowrap)
  from Cons.IH [OF this] show ?case
    by (simp add: upt_Suc_shift fold_map comp_def nowrap add.assoc del: upt_Suc)
qed

subsection \<open>Gather\<close>

lemma gather_outside:
  assumes "unat off + pending xs < 2 ^ 64" and "x < j + unat off \<or> j + unat off + pending xs \<le> x"
  shows "conn_buf (general_scatter_gather False (Scratch j) off xs s) x = conn_buf s x"
  using assms
proof (induction xs arbitrary: off s)
  case Nil
  then show ?case by simp
next
  case (Cons v vs)
  from Cons.prems have nowrap: "unat (off + iov_len v) = unat off + unat (iov_len v)"
    by (intro unat_offset_step) simp
  let ?s2 = "memcpy (Scratch (j + unat off)) (Caller (iov_base v)) (iov_len v) s"
  from Cons.prems have "unat (off + iov_len v) + pending vs < 2 ^ 64"
    and "x < j + unat (off + iov_len v) \<or> j + unat (off + iov_len v) + pending vs \<le> x"
    by (auto simp: nowrap)
  from Cons.IH [OF this, of ?s2] have "conn_buf (general_scatter_gather False (Scratch j) (off + iov_len v) vs ?s2) x
      = conn_buf ?s2 x" .
  also have "\<dots> = conn_buf s x"
    using Cons.prems(2) by (auto simp: poke_def)
  finally show ?case by simp
qed

lemma gather_concat:
  assumes "unat off + pending xs < 2 ^ 64"
  shows "peek (conn_buf (general_scatter_gather False (Scratch j) off xs s)) (j + unat off) (pending xs) =
         concat (map (seg_bytes s) xs)"
  using assms
proof (induction xs arbitrary: off s)
  case Nil
  then show ?case by simp
next
  case (Cons v vs)
  from Cons.prems have nowrap: "unat (off + iov_len v) = unat off + unat (iov_len v)"
    by (intro unat_offset_step) simp
  let ?s2 = "memcpy (Scratch (j + unat off)) (Caller (iov_base v)) (iov_len v) s"
  let ?G = "general_scatter_gather False (Scratch j) (off + iov_len v) vs ?s2"
  from Cons.prems have nw: "unat (off + iov_len v) + pending vs < 2 ^ 64"
    by (simp add: nowrap)
  have "peek (conn_buf ?G) (j + unat off) (unat (iov_len v)) = peek (conn_buf ?s2) (j + unat off) (unat (iov_len v))"
    by (rule peek_cong) (simp add: gather_outside [OF nw] nowrap)
  also have "\<dots> = seg_bytes s v"
    by (simp add: seg_bytes_def peek_poke_same)
  finally have front: "peek (conn_buf ?G) (j + unat off) (unat (iov_len v)) = seg_bytes s v" .
  have "map (seg_bytes ?s2) vs = map (seg_bytes s) vs"
    by (simp add: seg_bytes_def)
  with Cons.IH [OF nw, of ?s2]
  have rear: "peek (conn_buf ?G) (j + unat off + unat (iov_len v)) (pending vs) = concat (map (seg_bytes s) vs)"
    by (simp add: nowrap add.assoc)
  show ?case
    using front rear by (simp add: peek_add)
qed

lemma gather_segment:
  assumes "unat off + pending xs < 2 ^ 64" and "i < length xs"
  shows "peek (conn_buf (general_scatter_gather False (Scratch j) off xs s))
           (j + unat off + offset_of xs i) (unat (iov_len (xs ! i))) = seg_bytes s (xs ! i)"
  using assms
proof (induction xs arbitrary: off s i)
  case Nil
  then show ?case by simp
next
  case (Cons v vs)
  from Cons.prems have nowrap: "unat (off + iov_len v) = unat off + unat (iov_len v)"
    by (intro unat_offset_step) simp
  let ?s2 = "memcpy (Scratch (j + unat off)) (Caller (iov_base v)) (iov_len v) s"
  let ?G = "general_scatter_gather False (Scratch j) (off + iov_len v) vs ?s2"
  from Cons.prems have nw: "unat (off + iov_len v) + pending vs < 2 ^ 64"
    by (simp add: nowrap)
  show ?case
  proof (cases i)
    case 0
    have "peek (conn_buf ?G) (j + unat off) (unat (iov_len v)) = peek (conn_buf ?s2) (j + unat off) (unat (iov_len v))"
      by (rule peek_cong) (simp add: gather_outside [OF nw] nowrap)
    also have "\<dots> = seg_bytes s v"
      by (simp add: seg_bytes_def peek_poke_same)
    finally show ?thesis using 0 by simp
  next
    case (Suc k)
    with Cons.prems have "k < length vs" by simp
    from Cons.IH [OF nw this, of ?s2] show ?thesis
      using Suc by (simp add: nowrap add.assoc seg_bytes_def)
  qed
qed

lemma gather_index_wise:
  assumes "unat off + pending xs < 2 ^ 64"
  shows "general_scatter_gather False (Scratch j) off xs s =
         fold (\<lambda>i. memcpy (Scratch (j + unat off + offset_of xs i)) (Caller (iov_base (xs ! i))) (iov_len (xs ! i)))
           [0..<length xs] s"
  using assms
proof (induction xs arbitrary: off s)
  case Nil
  then show ?case by simp
next
  case (Cons v vs)
  from Cons.prems have nowrap: "unat (off + iov_len v) = unat off + unat (iov_len v)"
    by (intro unat_offset_step) simp
  from Cons.prems have "unat (off + iov_len v) + pending vs < 2 ^ 64"
    by (simp add: nowrap)
  from Cons.IH [OF this] show ?case
    by (simp add: upt_Suc_shift fold_map comp_def nowrap add.assoc del: upt_Suc)
qed

subsection \<open>The scalar loops\<close>

lemma not_sle_0: "\<not> ret <=s 0 \<Longrightarrow> 0 <s ret"
  by (simp add: word_sle_eq word_sless_alt)

lemma sless_cases: "(ret::ssize_t) <s 0 \<or> ret = 0 \<or> 0 <s ret"
proof -
  have "sint ret < 0 \<or> sint ret = 0 \<or> 0 < sint ret" by arith
  then show ?thesis by (auto simp: word_sless_alt signed_eq_0_iff)
qed

lemma Read_trace:
  "Read rt buf len nt poll s = (ret, s1) \<Longrightarrow> trace s1 = trace s @ [CallRead len nt poll ret]"
  by (auto simp: Read_def split: prod.splits)

lemma Read_ret:
  "Read rt buf len nt poll s = (ret, s1) \<Longrightarrow> ret = fst (tcp_read rt (conn_c s) len nt poll)"
  by (auto simp: Read_def split: prod.splits)

lemma Read_Caller_buf:
  "Read rt (Caller a) len nt poll s = (ret, s1) \<Longrightarrow> conn_buf s1 = conn_buf s"
  by (auto simp: Read_def split: prod.splits)

lemma Write_trace:
  "Write rt buf len nt poll s = (ret, s1) \<Longrightarrow> trace s1 = trace s @ [CallWrite len nt poll ret]"
  by (auto simp: Write_def split: prod.splits)

lemma Write_ret:
  "Write rt buf len nt poll s = (ret, s1) \<Longrightarrow>
   ret = fst (tcp_write rt (conn_c s) (load buf (unat len) s) nt poll)"
  by (auto simp: Write_def split: prod.splits)

lemma Write_memory:
  "Write rt buf len nt poll s = (ret, s1) \<Longrightarrow> conn_buf s1 = conn_buf s \<and> mem s1 = mem s"
  by (auto simp: Write_def split: prod.splits)

lemma length_load [simp]: "length (load p n s) = n"
  by (cases p) simp_all

text \<open>What the calls of a finished \<^verbatim>\<open>ReadFull\<close> loop look like.\<close>

lemma ReadFull_loop_shape:
  assumes "ReadFull_loop rt pos len nt poll n s = Some y"
  shows "\<exists>evs. trace (snd y) = trace s @ evs \<and> list_all is_read evs \<and>
           list_all progress (butlast evs) \<and>
           (case fst y of
              Inr r \<Rightarrow> (r = len \<and> list_all progress evs) \<or> (r <=s 0 \<and> evs \<noteq> [] \<and> ret_of (last evs) = r)
            | Inl f \<Rightarrow> f = AssertionFailed \<and> list_all progress evs)"
  using assms
proof (induction rule: ReadFull_loop.raw_induct [rotated 1, consumes 1])
  case (1 loop rt pos len nt poll n s y)
  show ?case
  proof (cases "n < len")
    case False
    with 1(2) show ?thesis by (auto split: if_splits)
  next
    case True
    obtain ret s1 where R: "Read rt (ptr_add pos (unat n)) (len - n) nt poll s = (ret, s1)"
      by (cases "Read rt (ptr_add pos (unat n)) (len - n) nt poll s")
    note T = Read_trace [OF R]
    show ?thesis
    proof (cases "ret <=s 0")
      case True
      with 1(2) \<open>n < len\<close> R have "y = (Inr ret, s1)" by simp
      with T True show ?thesis
        by (intro exI [of _ "[CallRead (len - n) nt poll ret]"]) simp
    next
      case False
      with 1(2) \<open>n < len\<close> R have L: "loop rt pos len nt poll (n + ret) s1 = Some y" by simp
      from 1(1) [OF L] obtain evs where E: "trace (snd y) = trace s1 @ evs" "list_all is_read evs"
        "list_all progress (butlast evs)"
        "case fst y of
           Inr r \<Rightarrow> (r = len \<and> list_all progress evs) \<or> (r <=s 0 \<and> evs \<noteq> [] \<and> ret_of (last evs) = r)
         | Inl f \<Rightarrow> f = AssertionFailed \<and> list_all progress evs" by blast
      from False have P: "progress (CallRead (len - n) nt poll ret)"
        by (simp add: progress_def not_sle_0)
      show ?thesis
      proof (intro exI [of _ "CallRead (len - n) nt poll ret # evs"] conjI)
        show "trace (snd y) = trace s @ CallRead (len - n) nt poll ret # evs" using E(1) T by simp
        show "list_all is_read (CallRead (len - n) nt poll ret # evs)" using E(2) by simp
        show "list_all progress (butlast (CallRead (len - n) nt poll ret # evs))" using E(3) P by simp
        show "case fst y of
           Inr r \<Rightarrow> (r = len \<and> list_all progress (CallRead (len - n) nt poll ret # evs)) \<or>
                    (r <=s 0 \<and> CallRead (len - n) nt poll ret # evs \<noteq> [] \<and>
                     ret_of (last (CallRead (len - n) nt poll ret # evs)) = r)
         | Inl f \<Rightarrow> f = AssertionFailed \<and> list_all progress (CallRead (len - n) nt poll ret # evs)"
          using E(4) P by (auto split: sum.splits)
      qed
    qed
  qed
qed

text \<open>Under the contract the loop of \<^verbatim>\<open>ReadFull\<close> ends, and ends by returning.\<close>

lemma ReadFull_loop_returns:
  assumes B: "tcp_read_bounded rt" and "n \<le> len"
  shows "\<exists>r s'. ReadFull_loop rt pos len nt poll n s = Some (Inr r, s')"
  using \<open>n \<le> len\<close>
proof (induction "unat len - unat n" arbitrary: n s rule: less_induct)
  case less
  show ?case
  proof (cases "n < len")
    case False
    with less.prems have "n = len" by simp
    then show ?thesis by (subst ReadFull_loop.simps) simp
  next
    case True
    obtain ret s1 where R: "Read rt (ptr_add pos (unat n)) (len - n) nt poll s = (ret, s1)"
      by (cases "Read rt (ptr_add pos (unat n)) (len - n) nt poll s")
    show ?thesis
    proof (cases "ret <=s 0")
      case True
      with R \<open>n < len\<close> show ?thesis by (subst ReadFull_loop.simps) simp
    next
      case False
      then have P: "0 <s ret" by (rule not_sle_0)
      with B Read_ret [OF R] have le: "ret \<le> len - n" by (simp add: tcp_read_bounded_def)
      from P have nz: "ret \<noteq> 0" by auto
      from le \<open>n < len\<close> nz have a: "n + ret \<le> len" and b: "unat len - unat (n + ret) < unat len - unat n"
        by unat_arith+
      from less.hyps [OF b a, of s1] obtain r s' where
        "ReadFull_loop rt pos len nt poll (n + ret) s1 = Some (Inr r, s')" by blast
      with R False \<open>n < len\<close> show ?thesis by (subst ReadFull_loop.simps) simp
    qed
  qed
qed

lemma ReadFull_loop_Caller_buf:
  assumes "ReadFull_loop rt pos len nt poll n s = Some y" and "pos = Caller a"
  shows "conn_buf (snd y) = conn_buf s"
  using assms
proof (induction arbitrary: a rule: ReadFull_loop.raw_induct [rotated 1, consumes 1])
  case (1 loop rt pos len nt poll n s y)
  show ?case
  proof (cases "n < len")
    case False
    with 1(2) show ?thesis by (auto split: if_splits)
  next
    case True
    obtain ret s1 where R: "Read rt (Caller (a + unat n)) (len - n) nt poll s = (ret, s1)"
      by (cases "Read rt (Caller (a + unat n)) (len - n) nt poll s")
    note F = Read_Caller_buf [OF R]
    show ?thesis
    proof (cases "ret <=s 0")
      case True
      with 1(2) \<open>n < len\<close> R \<open>pos = Caller a\<close> have "y = (Inr ret, s1)" by simp
      with F show ?thesis by simp
    next
      case False
      with 1(2) \<open>n < len\<close> R \<open>pos = Caller a\<close>
      have L: "loop rt pos len nt poll (n + ret) s1 = Some y" by simp
      from 1(1) [OF L \<open>pos = Caller a\<close>] F show ?thesis by simp
    qed
  qed
qed

text \<open>The same for \<^verbatim>\<open>WriteFull\<close>; a write moves no byte of either memory.\<close>

lemma WriteFull_loop_shape:
  assumes "WriteFull_loop rt pos len nt poll n s = Some y"
  shows "\<exists>evs. trace (snd y) = trace s @ evs \<and> list_all is_write evs \<and>
           list_all progress (butlast evs) \<and>
           (case fst y of
              Inr r \<Rightarrow> (r = len \<and> list_all progress evs) \<or> (r <s 0 \<and> evs \<noteq> [] \<and> ret_of (last evs) = r)
            | Inl f \<Rightarrow> f = AssertionFailed \<and>
                (list_all progress evs \<or> (evs \<noteq> [] \<and> ret_of (last evs) = 0)))"
  using assms
proof (induction rule: WriteFull_loop.raw_induct [rotated 1, consumes 1])
  case (1 loop rt pos len nt poll n s y)
  show ?case
  proof (cases "n < len")
    case False
    with 1(2) show ?thesis by (auto split: if_splits)
  next
    case True
    obtain ret s1 where R: "Write rt (ptr_add pos (unat n)) (len - n) nt poll s = (ret, s1)"
      by (cases "Write rt (ptr_add pos (unat n)) (len - n) nt poll s")
    note T = Write_trace [OF R]
    consider (neg) "ret <s 0" | (zero) "ret = 0" | (pos) "0 <s ret"
      using sless_cases [of ret] by blast
    then show ?thesis
    proof cases
      case neg
      with 1(2) \<open>n < len\<close> R have "y = (Inr ret, s1)" by simp
      with T neg show ?thesis
        by (intro exI [of _ "[CallWrite (len - n) nt poll ret]"]) simp
    next
      case zero
      with 1(2) \<open>n < len\<close> R have "y = (Inl AssertionFailed, s1)" by simp
      with T zero show ?thesis
        by (intro exI [of _ "[CallWrite (len - n) nt poll ret]"]) simp
    next
      case pos
      then have "\<not> ret <s 0" by (simp add: word_sless_alt)
      with pos 1(2) \<open>n < len\<close> R have L: "loop rt pos len nt poll (n + ret) s1 = Some y" by simp
      from 1(1) [OF L] obtain evs where E: "trace (snd y) = trace s1 @ evs" "list_all is_write evs"
        "list_all progress (butlast evs)"
        "case fst y of
           Inr r \<Rightarrow> (r = len \<and> list_all progress evs) \<or> (r <s 0 \<and> evs \<noteq> [] \<and> ret_of (last evs) = r)
         | Inl f \<Rightarrow> f = AssertionFailed \<and>
             (list_all progress evs \<or> (evs \<noteq> [] \<and> ret_of (last evs) = 0))" by blast
      from pos have P: "progress (CallWrite (len - n) nt poll ret)"
        by (simp add: progress_def)
      show ?thesis
      proof (intro exI [of _ "CallWrite (len - n) nt poll ret # evs"] conjI)
        show "trace (snd y) = trace s @ CallWrite (len - n) nt poll ret # evs" using E(1) T by simp
        show "list_all is_write (CallWrite (len - n) nt poll ret # evs)" using E(2) by simp
        show "list_all progress (butlast (CallWrite (len - n) nt poll ret # evs))" using E(3) P by simp
        show "case fst y of
           Inr r \<Rightarrow> (r = len \<and> list_all progress (CallWrite (len - n) nt poll ret # evs)) \<or>
                    (r <s 0 \<and> CallWrite (len - n) nt poll ret # evs \<noteq> [] \<and>
                     ret_of (last (CallWrite (len - n) nt poll ret # evs)) = r)
         | Inl f \<Rightarrow> f = AssertionFailed \<and>
             (list_all progress (CallWrite (len - n) nt poll ret # evs) \<or>
              (CallWrite (len - n) nt poll ret # evs \<noteq> [] \<and>
               ret_of (last (CallWrite (len - n) nt poll ret # evs)) = 0))"
          using E(4) P by (auto split: sum.splits)
      qed
    qed
  qed
qed

lemma WriteFull_loop_ends:
  assumes B: "tcp_write_bounded rt" and "n \<le> len"
  shows "\<exists>y. WriteFull_loop rt pos len nt poll n s = Some y"
  using \<open>n \<le> len\<close>
proof (induction "unat len - unat n" arbitrary: n s rule: less_induct)
  case less
  show ?case
  proof (cases "n < len")
    case False
    with less.prems have "n = len" by simp
    then show ?thesis by (subst WriteFull_loop.simps) simp
  next
    case True
    obtain ret s1 where R: "Write rt (ptr_add pos (unat n)) (len - n) nt poll s = (ret, s1)"
      by (cases "Write rt (ptr_add pos (unat n)) (len - n) nt poll s")
    show ?thesis
    proof (cases "0 <s ret")
      case False
      with R \<open>n < len\<close> show ?thesis by (subst WriteFull_loop.simps) simp
    next
      case True
      then have nneg: "\<not> ret <s 0" by (simp add: word_sless_alt)
      from B have "0 <s fst (tcp_write rt c bs nt poll) \<Longrightarrow>
          unat (fst (tcp_write rt c bs nt poll)) \<le> length bs" for c bs
        by (simp add: tcp_write_bounded_def)
      from this [of "conn_c s" "load (ptr_add pos (unat n)) (unat (len - n)) s"] True Write_ret [OF R]
      have "unat ret \<le> unat (len - n)"
        by simp
      then have le: "ret \<le> len - n" by (simp add: word_le_nat_alt)
      from True have nz: "ret \<noteq> 0" by auto
      from le \<open>n < len\<close> nz have a: "n + ret \<le> len" and b: "unat len - unat (n + ret) < unat len - unat n"
        by unat_arith+
      from less.hyps [OF b a, of s1] obtain y where
        "WriteFull_loop rt pos len nt poll (n + ret) s1 = Some y" by blast
      with R True nneg \<open>n < len\<close> show ?thesis by (subst WriteFull_loop.simps) simp
    qed
  qed
qed

lemma WriteFull_loop_memory:
  assumes "WriteFull_loop rt pos len nt poll n s = Some y"
  shows "conn_buf (snd y) = conn_buf s \<and> mem (snd y) = mem s"
  using assms
proof (induction rule: WriteFull_loop.raw_induct [rotated 1, consumes 1])
  case (1 loop rt pos len nt poll n s y)
  show ?case
  proof (cases "n < len")
    case False
    with 1(2) show ?thesis by (auto split: if_splits)
  next
    case True
    obtain ret s1 where R: "Write rt (ptr_add pos (unat n)) (len - n) nt poll s = (ret, s1)"
      by (cases "Write rt (ptr_add pos (unat n)) (len - n) nt poll s")
    note F = Write_memory [OF R]
    show ?thesis
    proof (cases "ret <s 0 \<or> \<not> 0 <s ret")
      case True
      with 1(2) \<open>n < len\<close> R have "snd y = s1" by (auto split: if_splits)
      with F show ?thesis by simp
    next
      case False
      with 1(2) \<open>n < len\<close> R have L: "loop rt pos len nt poll (n + ret) s1 = Some y" by simp
      from 1(1) [OF L] F show ?thesis by simp
    qed
  qed
qed

subsection \<open>The raw vectored loops leave the scratch array alone\<close>

lemma scatter_bytes_buf [simp]: "conn_buf (scatter_bytes iov bs s) = conn_buf s"
  by (induction iov arbitrary: bs s) simp_all

lemma Readv_buf: "Readv rt iov nt poll s = (ret, s1) \<Longrightarrow> conn_buf s1 = conn_buf s"
  by (auto simp: Readv_def split: prod.splits)

lemma Writev_buf: "Writev rt iov nt poll s = (ret, s1) \<Longrightarrow> conn_buf s1 = conn_buf s"
  by (auto simp: Writev_def split: prod.splits)

lemma ReadvFullRaw_loop_buf:
  assumes "ReadvFullRaw_loop rt nt poll whole iov s = Some y"
  shows "conn_buf (snd y) = conn_buf s"
  using assms
proof (induction rule: ReadvFullRaw_loop.raw_induct [rotated 1, consumes 1])
  case (1 loop rt nt poll whole iov s y)
  obtain ret s1 where R: "Readv rt iov nt poll s = (ret, s1)"
    by (cases "Readv rt iov nt poll s")
  note F = Readv_buf [OF R]
  show ?case
  proof (cases "ret <=s 0 \<or> pending iov \<le> unat ret")
    case True
    with 1(2) R have "snd y = s1" by (auto split: if_splits)
    with F show ?thesis by simp
  next
    case False
    with 1(2) R have L: "loop rt nt poll whole (advance iov (unat ret)) s1 = Some y" by simp
    from 1(1) [OF L] F show ?thesis by simp
  qed
qed

lemma WritevFullRaw_loop_buf:
  assumes "WritevFullRaw_loop rt nt poll whole iov s = Some y"
  shows "conn_buf (snd y) = conn_buf s"
  using assms
proof (induction rule: WritevFullRaw_loop.raw_induct [rotated 1, consumes 1])
  case (1 loop rt nt poll whole iov s y)
  obtain ret s1 where R: "Writev rt iov nt poll s = (ret, s1)"
    by (cases "Writev rt iov nt poll s")
  note F = Writev_buf [OF R]
  show ?case
  proof (cases "ret <=s 0 \<or> pending iov \<le> unat ret")
    case True
    with 1(2) R have "snd y = s1" by (auto split: if_splits)
    with F show ?thesis by simp
  next
    case False
    with 1(2) R have L: "loop rt nt poll whole (advance iov (unat ret)) s1 = Some y" by simp
    from 1(1) [OF L] F show ?thesis by simp
  qed
qed

subsection \<open>The pipe keeps the contract\<close>

lemma unat_of_nat_le: "unat (of_nat m :: size_t) \<le> m"
  by (simp add: unat_of_nat)

lemma pipe_read_bounded: "tcp_read_bounded (pipe k)"
proof -
  have "unat (of_nat (min k (min (unat len) n)) :: size_t) \<le> unat len" for len :: size_t and n
    using unat_of_nat_le [of "min k (min (unat len) n)"] by simp
  then show ?thesis
    by (simp add: tcp_read_bounded_def pipe_def Let_def word_le_nat_alt)
qed

lemma pipe_write_bounded: "tcp_write_bounded (pipe k)"
proof -
  have "unat (of_nat (min k n) :: size_t) \<le> n" for n
    using unat_of_nat_le [of "min k n"] by simp
  then show ?thesis
    by (simp add: tcp_write_bounded_def pipe_def Let_def)
qed

subsection \<open>The vectored calls on the small-total path\<close>

lemma scatter_to_index_wise:
  "pending xs < 2 ^ 64 \<Longrightarrow> scatter_to (Scratch 0) xs s = scatter_by_index xs s"
  using scatter_index_wise [of 0 xs 0 s] by (simp add: scatter_to_def scatter_by_index_def)

lemma gather_from_index_wise:
  "pending xs < 2 ^ 64 \<Longrightarrow> gather_from (Scratch 0) xs s = gather_by_index xs s"
  using gather_index_wise [of 0 xs 0 s] by (simp add: gather_from_def gather_by_index_def)

lemma length_seg_bytes [simp]: "length (seg_bytes s v) = unat (iov_len v)"
  by (simp add: seg_bytes_def)

lemma length_concat_segs: "length (concat (map (seg_bytes s) xs)) = pending xs"
proof (induction xs)
  case Nil
  show ?case by simp
next
  case (Cons v vs)
  have "length (concat (map (seg_bytes s) (v # vs))) =
      length (seg_bytes s v) + length (concat (map (seg_bytes s) vs))"
    by (simp only: list.map concat.simps length_append)
  also have "\<dots> = unat (iov_len v) + pending vs"
    by (simp only: Cons.IH length_seg_bytes)
  finally show ?case by (simp only: pending_Cons)
qed

lemma poke_peek_same: "poke m a (peek m a n) = m"
  by (auto simp: poke_def fun_eq_iff)

text \<open>Scattering what was gathered from the same segments changes no byte.\<close>

lemma scatter_of_own_bytes:
  assumes "unat off + pending xs < 2 ^ 64"
    and "\<forall>i < length xs. peek (conn_buf s) (j + unat off + offset_of xs i) (unat (iov_len (xs ! i))) =
           seg_bytes s (xs ! i)"
  shows "general_scatter_gather True (Scratch j) off xs s = s"
  using assms
proof (induction xs arbitrary: off)
  case Nil
  then show ?case by simp
next
  case (Cons v vs)
  from Cons.prems(1) have nowrap: "unat (off + iov_len v) = unat off + unat (iov_len v)"
    by (intro unat_offset_step) simp
  from Cons.prems(2) [rule_format, of 0]
  have "peek (conn_buf s) (j + unat off) (unat (iov_len v)) = peek (mem s) (iov_base v) (unat (iov_len v))"
    by (simp add: seg_bytes_def)
  then have same: "memcpy (Caller (iov_base v)) (Scratch (j + unat off)) (iov_len v) s = s"
    by (simp add: memcpy_def poke_peek_same)
  have "\<forall>i < length vs. peek (conn_buf s) (j + unat (off + iov_len v) + offset_of vs i)
      (unat (iov_len (vs ! i))) = seg_bytes s (vs ! i)"
  proof (intro allI impI)
    fix i
    assume "i < length vs"
    with Cons.prems(2) [rule_format, of "Suc i"] show "peek (conn_buf s)
        (j + unat (off + iov_len v) + offset_of vs i) (unat (iov_len (vs ! i))) = seg_bytes s (vs ! i)"
      by (simp add: nowrap add.assoc)
  qed
  moreover from Cons.prems(1) have "unat (off + iov_len v) + pending vs < 2 ^ 64"
    by (simp add: nowrap)
  ultimately have "general_scatter_gather True (Scratch j) (off + iov_len v) vs s = s"
    by (rule Cons.IH [rotated])
  with same show ?case by simp
qed

lemma gather_fields [simp]:
  "seg_bytes (general_scatter_gather False (Scratch j) off xs s) v = seg_bytes s v"
  by (simp add: seg_bytes_def)

lemma scatter_after_gather:
  assumes "pending xs < 2 ^ 64"
  shows "scatter_to (Scratch 0) xs (gather_from (Scratch 0) xs s) = gather_from (Scratch 0) xs s"
  unfolding scatter_to_def
proof (rule scatter_of_own_bytes)
  show "unat (0 :: size_t) + pending xs < 2 ^ 64"
    using assms by simp
  show "\<forall>i < length xs. peek (conn_buf (gather_from (Scratch 0) xs s))
      (0 + unat (0 :: size_t) + offset_of xs i) (unat (iov_len (xs ! i))) =
      seg_bytes (gather_from (Scratch 0) xs s) (xs ! i)"
    using assms gather_segment [of 0 xs _ 0 s] by (simp add: gather_from_def)
qed

lemma sint_of_length:
  fixes len :: size_t
  assumes "uint len < 2 ^ 63"
  shows "sint len = uint len"
proof -
  have "- (2 ^ 63) \<le> uint len"
    by (rule order_trans [of _ 0]) simp_all
  then have "signed_take_bit 63 (uint len) = uint len"
    using assms by (rule signed_take_bit_int_eq_self)
  then show ?thesis
    by (simp add: sint_uint)
qed

lemma concat_ranges:
  "concat (map (\<lambda>i. peek m (j + offset_of xs i) (unat (iov_len (xs ! i)))) [0..<length xs]) =
   peek m j (pending xs)"
proof (induction xs arbitrary: j)
  case Nil
  then show ?case by simp
next
  case (Cons v vs)
  have "concat (map (\<lambda>i. peek m (j + offset_of (v # vs) i) (unat (iov_len ((v # vs) ! i))))
      [0..<length (v # vs)]) =
      peek m j (unat (iov_len v)) @
      concat (map (\<lambda>i. peek m (j + unat (iov_len v) + offset_of vs i) (unat (iov_len (vs ! i))))
        [0..<length vs])"
    by (simp add: upt_Suc_shift comp_def add.assoc del: upt_Suc)
  also have "\<dots> = peek m j (unat (iov_len v)) @ peek m (j + unat (iov_len v)) (pending vs)"
    by (simp only: Cons.IH)
  finally show ?case
    by (simp add: peek_add)
qed

lemma gather_of_own_bytes:
  assumes "unat off + pending xs < 2 ^ 64"
    and "\<forall>i < length xs. seg_bytes s (xs ! i) =
           peek (conn_buf s) (j + unat off + offset_of xs i) (unat (iov_len (xs ! i)))"
  shows "general_scatter_gather False (Scratch j) off xs s = s"
  using assms
proof (induction xs arbitrary: off)
  case Nil
  then show ?case by simp
next
  case (Cons v vs)
  from Cons.prems(1) have nowrap: "unat (off + iov_len v) = unat off + unat (iov_len v)"
    by (intro unat_offset_step) simp
  from Cons.prems(2) [rule_format, of 0]
  have "peek (mem s) (iov_base v) (unat (iov_len v)) = peek (conn_buf s) (j + unat off) (unat (iov_len v))"
    by (simp add: seg_bytes_def)
  then have same: "memcpy (Scratch (j + unat off)) (Caller (iov_base v)) (iov_len v) s = s"
    by (simp add: memcpy_def poke_peek_same)
  have "\<forall>i < length vs. seg_bytes s (vs ! i) =
      peek (conn_buf s) (j + unat (off + iov_len v) + offset_of vs i) (unat (iov_len (vs ! i)))"
  proof (intro allI impI)
    fix i
    assume "i < length vs"
    with Cons.prems(2) [rule_format, of "Suc i"] show "seg_bytes s (vs ! i) =
        peek (conn_buf s) (j + unat (off + iov_len v) + offset_of vs i) (unat (iov_len (vs ! i)))"
      by (simp add: nowrap add.assoc)
  qed
  moreover from Cons.prems(1) have "unat (off + iov_len v) + pending vs < 2 ^ 64"
    by (simp add: nowrap)
  ultimately have "general_scatter_gather False (Scratch j) (off + iov_len v) vs s = s"
    by (rule Cons.IH [rotated])
  with same show ?case by simp
qed

lemma gather_after_scatter:
  assumes "pending xs < 2 ^ 64" and "disjoint_segs xs"
  shows "gather_from (Scratch 0) xs (scatter_to (Scratch 0) xs s) = scatter_to (Scratch 0) xs s"
  unfolding gather_from_def
proof (rule gather_of_own_bytes)
  show "unat (0 :: size_t) + pending xs < 2 ^ 64"
    using assms by simp
  show "\<forall>i < length xs. seg_bytes (scatter_to (Scratch 0) xs s) (xs ! i) =
      peek (conn_buf (scatter_to (Scratch 0) xs s)) (0 + unat (0 :: size_t) + offset_of xs i)
        (unat (iov_len (xs ! i)))"
    using assms scatter_segment [of xs 0 _ 0 s] by (simp add: scatter_to_def)
qed

section \<open>The claims\<close>

lemma ptr_add_0 [simp]: "ptr_add p 0 = p"
  by (cases p) simp_all

lemma not_progress_le: "r <=s 0 \<Longrightarrow> \<not> 0 <s r"
  by (simp add: word_sle_eq word_sless_alt)

text \<open>
  C1. Whenever \<^verbatim>\<open>TcpConn::ReadFull\<close> ends, every call it made was a \<^verbatim>\<open>Read\<close> and
  every call but the last returned a positive count. If it returned a value,
  that value is the requested length (after calls that all made progress) or
  the zero-or-negative value of its last \<^verbatim>\<open>Read\<close>, the first such value, handed
  on as it is; it is never positive and below the requested length, and a
  positive one is the requested length as a number when that fits \<^verbatim>\<open>ssize_t\<close>
  (\<^verbatim>\<open>return n\<close> converts the \<^verbatim>\<open>size_t\<close>). The only
  other end is the final \<^verbatim>\<open>assert\<close>, which takes a runtime that returns more than
  was asked for. With a runtime that keeps the contract, \<^verbatim>\<open>ReadFull\<close> always ends
  by returning.
\<close>

theorem ReadFull_exact_or_sentinel:
  "(\<forall>out s'. ReadFull rt buf len nt poll s = Some (out, s') \<longrightarrow>
      (\<exists>evs. trace s' = trace s @ evs \<and> list_all is_read evs \<and> list_all progress (butlast evs) \<and>
         (case out of
            Inr r \<Rightarrow> (r = len \<and> list_all progress evs) \<or> (r <=s 0 \<and> evs \<noteq> [] \<and> ret_of (last evs) = r)
          | Inl f \<Rightarrow> f = AssertionFailed \<and> list_all progress evs \<and> \<not> tcp_read_bounded rt)) \<and>
      (\<forall>r. out = Inr r \<longrightarrow> \<not> (0 <s r \<and> r < len)) \<and>
      (\<forall>r. out = Inr r \<longrightarrow> 0 <s r \<longrightarrow> uint len < 2 ^ 63 \<longrightarrow> sint r = uint len))
   \<and> (tcp_read_bounded rt \<longrightarrow> (\<exists>r s'. ReadFull rt buf len nt poll s = Some (Inr r, s')))"
proof (intro conjI allI impI)
  fix out s'
  assume run: "ReadFull rt buf len nt poll s = Some (out, s')"
  then have "ReadFull_loop rt buf len nt poll 0 s = Some (out, s')"
    by (simp add: ReadFull_def)
  from ReadFull_loop_shape [OF this] obtain evs where
    E: "trace s' = trace s @ evs" "list_all is_read evs" "list_all progress (butlast evs)"
      "case out of
         Inr r \<Rightarrow> (r = len \<and> list_all progress evs) \<or> (r <=s 0 \<and> evs \<noteq> [] \<and> ret_of (last evs) = r)
       | Inl f \<Rightarrow> f = AssertionFailed \<and> list_all progress evs"
    by auto
  have nb: "\<not> tcp_read_bounded rt" if "out = Inl f" for f
  proof
    assume "tcp_read_bounded rt"
    from ReadFull_loop_returns [OF this, of 0 len buf nt poll s] run that show False
      by (auto simp: ReadFull_def)
  qed
  show "\<exists>evs. trace s' = trace s @ evs \<and> list_all is_read evs \<and> list_all progress (butlast evs) \<and>
         (case out of
            Inr r \<Rightarrow> (r = len \<and> list_all progress evs) \<or> (r <=s 0 \<and> evs \<noteq> [] \<and> ret_of (last evs) = r)
          | Inl f \<Rightarrow> f = AssertionFailed \<and> list_all progress evs \<and> \<not> tcp_read_bounded rt)"
    using E nb by (intro exI [of _ evs]) (auto split: sum.splits)
  fix r
  assume "out = Inr r"
  with E(4) have "r = len \<or> r <=s 0" by auto
  then show "\<not> (0 <s r \<and> r < len)"
    using not_progress_le by auto
next
  fix out s' r
  assume run: "ReadFull rt buf len nt poll s = Some (out, s')"
    and "out = Inr r" and "0 <s r" and small: "uint len < 2 ^ 63"
  from run have "ReadFull_loop rt buf len nt poll 0 s = Some (out, s')"
    by (simp add: ReadFull_def)
  from ReadFull_loop_shape [OF this] \<open>out = Inr r\<close> have "r = len \<or> r <=s 0"
    by auto
  with \<open>0 <s r\<close> not_progress_le have "r = len"
    by auto
  with small show "sint r = uint len"
    by (simp add: sint_of_length)
next
  assume "tcp_read_bounded rt"
  from ReadFull_loop_returns [OF this, of 0 len buf nt poll s]
  show "\<exists>r s'. ReadFull rt buf len nt poll s = Some (Inr r, s')"
    by (simp add: ReadFull_def)
qed

theorem ReadFull_exact_or_sentinel_witness:
  "tcp_read_bounded (pipe 2) \<and>
   (\<exists>r s'. ReadFull (pipe 2) (Caller 0) 3 False False (world0 [5, 6, 7] [] []) = Some (Inr r, s') \<and>
      r = 3 \<and> trace s' = [CallRead 3 False False 2, CallRead 1 False False 1])"
proof -
  have b: "tcp_read_bounded (pipe 2)"
    by (rule pipe_read_bounded)
  have run: "map_option (\<lambda>(out, s'). (out, trace s'))
      (ReadFull (pipe 2) (Caller 0) 3 False False (world0 [5, 6, 7] [] [])) =
      Some (Inr 3, [CallRead 3 False False 2, CallRead 1 False False 1])"
    by code_simp
  from ReadFull_exact_or_sentinel [of "pipe 2" "Caller 0" 3 False False "world0 [5, 6, 7] [] []"] b
  obtain r s' where "ReadFull (pipe 2) (Caller 0) 3 False False (world0 [5, 6, 7] [] []) = Some (Inr r, s')"
    by blast
  with run b show ?thesis by auto
qed

text \<open>
  C2, as the code has it. On a span of static extent 1, \<^verbatim>\<open>ReadvFull\<close> and
  \<^verbatim>\<open>WritevFull\<close> are the scalar \<^verbatim>\<open>ReadFull\<close> and \<^verbatim>\<open>WriteFull\<close> on the segment's pointer
  and length, whatever the length, and the scratch array is as it was. The
  overloads on \<^verbatim>\<open>(const iovec *, int)\<close> build a span of dynamic extent: they are
  the raw vectored call for every count, a count of one included.
\<close>

theorem single_segment_fast_path:
  "ReadvFull rt (Static [v]) nt poll s = ReadFull rt (Caller (iov_base v)) (iov_len v) nt poll s \<and>
   WritevFull rt (Static [v]) nt poll s = WriteFull rt (Caller (iov_base v)) (iov_len v) nt poll s \<and>
   (\<forall>y. ReadvFull rt (Static [v]) nt poll s = Some y \<longrightarrow> conn_buf (snd y) = conn_buf s) \<and>
   (\<forall>y. WritevFull rt (Static [v]) nt poll s = Some y \<longrightarrow> conn_buf (snd y) = conn_buf s) \<and>
   ReadvFull_ptr rt iov iovcnt nt poll s =
     ReadvFullRaw rt (take (unat (scast iovcnt :: size_t)) iov) nt poll s \<and>
   WritevFull_ptr rt iov iovcnt nt poll s =
     WritevFullRaw rt (take (unat (scast iovcnt :: size_t)) iov) nt poll s"
proof (intro conjI allI impI)
  show r: "ReadvFull rt (Static [v]) nt poll s = ReadFull rt (Caller (iov_base v)) (iov_len v) nt poll s"
    by (simp add: ReadvFull_def)
  show w: "WritevFull rt (Static [v]) nt poll s = WriteFull rt (Caller (iov_base v)) (iov_len v) nt poll s"
    by (simp add: WritevFull_def)
  show "conn_buf (snd y) = conn_buf s" if "ReadvFull rt (Static [v]) nt poll s = Some y" for y
    using that ReadFull_loop_Caller_buf [of rt "Caller (iov_base v)" "iov_len v" nt poll 0 s y]
    by (simp add: r ReadFull_def)
  show "conn_buf (snd y) = conn_buf s" if "WritevFull rt (Static [v]) nt poll s = Some y" for y
    using that WriteFull_loop_memory [of rt "Caller (iov_base v)" "iov_len v" nt poll 0 s y]
    by (simp add: w WriteFull_def)
  show "ReadvFull_ptr rt iov iovcnt nt poll s =
     ReadvFullRaw rt (take (unat (scast iovcnt :: size_t)) iov) nt poll s"
    by (simp add: ReadvFull_ptr_def ReadvFull_def)
  show "WritevFull_ptr rt iov iovcnt nt poll s =
     WritevFullRaw rt (take (unat (scast iovcnt :: size_t)) iov) nt poll s"
    by (simp add: WritevFull_ptr_def WritevFull_def)
qed

theorem single_segment_fast_path_witness:
  "map_option (\<lambda>(out, s'). (out, trace s', load (Caller 30) 3 s', load (Scratch 0) 3 s'))
     (ReadvFull (pipe 2) (Static [\<lparr>iov_base = 30, iov_len = 3\<rparr>]) False False (world0 [5, 6, 7] [9, 9, 9] [])) =
   Some (Inr 3, [CallRead 3 False False 2, CallRead 1 False False 1], [5, 6, 7], [9, 9, 9])"
proof -
  have "map_option (\<lambda>(out, s'). (out, trace s', load (Caller 30) 3 s', load (Scratch 0) 3 s'))
     (ReadFull (pipe 2) (Caller 30) 3 False False (world0 [5, 6, 7] [9, 9, 9] [])) =
   Some (Inr 3, [CallRead 3 False False 2, CallRead 1 False False 1], [5, 6, 7], [9, 9, 9])"
    by code_simp
  with single_segment_fast_path [of "pipe 2" "\<lparr>iov_base = 30, iov_len = 3\<rparr>" False False
      "world0 [5, 6, 7] [9, 9, 9] []"]
  show ?thesis by simp
qed

text \<open>
  C2 as stated fails for the \<^verbatim>\<open>(const iovec *, int)\<close> overloads: called with one
  segment of one byte on a loopback stream, \<^verbatim>\<open>ReadvFull\<close> and \<^verbatim>\<open>WritevFull\<close> reach the
  runtime through its vectored primitive, the scalar \<^verbatim>\<open>ReadFull\<close> and \<^verbatim>\<open>WriteFull\<close>
  through its scalar one.
\<close>

theorem one_entry_pointer_overload_counterexample:
  "ReadvFull_ptr (pipe 4) [\<lparr>iov_base = 30, iov_len = 1\<rparr>] 1 False False (world0 [5, 6, 7] [] []) \<noteq>
   ReadFull (pipe 4) (Caller 30) 1 False False (world0 [5, 6, 7] [] []) \<and>
   WritevFull_ptr (pipe 4) [\<lparr>iov_base = 0, iov_len = 1\<rparr>] 1 False False (world0 [] [] [5]) \<noteq>
   WriteFull (pipe 4) (Caller 0) 1 False False (world0 [] [] [5])"
proof -
  have a: "map_option (\<lambda>(out, s'). trace s')
      (ReadvFull_ptr (pipe 4) [\<lparr>iov_base = 30, iov_len = 1\<rparr>] 1 False False (world0 [5, 6, 7] [] [])) =
      Some [CallReadv [1] False False 1]"
    by code_simp
  have b: "map_option (\<lambda>(out, s'). trace s')
      (ReadFull (pipe 4) (Caller 30) 1 False False (world0 [5, 6, 7] [] [])) =
      Some [CallRead 1 False False 1]"
    by code_simp
  have c: "map_option (\<lambda>(out, s'). trace s')
      (WritevFull_ptr (pipe 4) [\<lparr>iov_base = 0, iov_len = 1\<rparr>] 1 False False (world0 [] [] [5])) =
      Some [CallWritev [1] False False 1]"
    by code_simp
  have d: "map_option (\<lambda>(out, s'). trace s')
      (WriteFull (pipe 4) (Caller 0) 1 False False (world0 [] [] [5])) =
      Some [CallWrite 1 False False 1]"
    by code_simp
  show ?thesis
  proof (intro conjI notI)
    assume "ReadvFull_ptr (pipe 4) [\<lparr>iov_base = 30, iov_len = 1\<rparr>] 1 False False (world0 [5, 6, 7] [] []) =
      ReadFull (pipe 4) (Caller 30) 1 False False (world0 [5, 6, 7] [] [])"
    with a b show False by simp
  next
    assume "WritevFull_ptr (pipe 4) [\<lparr>iov_base = 0, iov_len = 1\<rparr>] 1 False False (world0 [] [] [5]) =
      WriteFull (pipe 4) (Caller 0) 1 False False (world0 [] [] [5])"
    with c d show False by simp
  qed
qed

text \<open>
  C3. In \<^verbatim>\<open>TcpConn::WriteFull\<close>, at any point of the loop with bytes left to write
  (\<open>n < len\<close>): when the \<^verbatim>\<open>Write\<close> returns a negative value the call ends
  there and returns that value; when it returns exactly 0 the call ends
  there in the failed \<^verbatim>\<open>assert(ret > 0)\<close>. Hence whenever \<^verbatim>\<open>WriteFull\<close> ends, all
  its calls were \<^verbatim>\<open>Write\<close>s that made progress up to the last one, a negative last
  value is the value returned, and a last value of 0 is the ended process. With
  a runtime that keeps the contract the call always ends.
\<close>

theorem WriteFull_negative_or_fatal:
  "(\<forall>n s0 ret s1. n < len \<longrightarrow> Write rt (ptr_add buf (unat n)) (len - n) nt poll s0 = (ret, s1) \<longrightarrow>
      (ret <s 0 \<longrightarrow> WriteFull_loop rt buf len nt poll n s0 = Some (Inr ret, s1)) \<and>
      (ret = 0 \<longrightarrow> WriteFull_loop rt buf len nt poll n s0 = Some (Inl AssertionFailed, s1)))
   \<and> (\<forall>out s'. WriteFull rt buf len nt poll s = Some (out, s') \<longrightarrow>
      (\<exists>evs. trace s' = trace s @ evs \<and> list_all is_write evs \<and> list_all progress (butlast evs) \<and>
         (evs \<noteq> [] \<and> ret_of (last evs) <s 0 \<longrightarrow> out = Inr (ret_of (last evs))) \<and>
         (evs \<noteq> [] \<and> ret_of (last evs) = 0 \<longrightarrow> out = Inl AssertionFailed) \<and>
         (list_all progress evs \<longrightarrow> out = Inr len \<or> out = Inl AssertionFailed)))
   \<and> (tcp_write_bounded rt \<longrightarrow> (\<exists>y. WriteFull rt buf len nt poll s = Some y))"
proof (intro conjI allI impI)
  fix n s0 ret s1
  assume "n < len" and W: "Write rt (ptr_add buf (unat n)) (len - n) nt poll s0 = (ret, s1)"
  then show "WriteFull_loop rt buf len nt poll n s0 = Some (Inr ret, s1)" if "ret <s 0"
    using that by (subst WriteFull_loop.simps) simp
  from \<open>n < len\<close> W show "WriteFull_loop rt buf len nt poll n s0 = Some (Inl AssertionFailed, s1)"
    if "ret = 0"
    using that by (subst WriteFull_loop.simps) simp
next
  fix out s'
  assume "WriteFull rt buf len nt poll s = Some (out, s')"
  then have "WriteFull_loop rt buf len nt poll 0 s = Some (out, s')"
    by (simp add: WriteFull_def)
  from WriteFull_loop_shape [OF this] obtain evs where
    E: "trace s' = trace s @ evs" "list_all is_write evs" "list_all progress (butlast evs)"
      "case out of
         Inr r \<Rightarrow> (r = len \<and> list_all progress evs) \<or> (r <s 0 \<and> evs \<noteq> [] \<and> ret_of (last evs) = r)
       | Inl f \<Rightarrow> f = AssertionFailed \<and>
           (list_all progress evs \<or> (evs \<noteq> [] \<and> ret_of (last evs) = 0))"
    by auto
  have last_progress: "0 <s ret_of (last evs)" if "list_all progress evs" "evs \<noteq> []"
    using that by (simp add: list_all_iff progress_def)
  have a: "out = Inr (ret_of (last evs))" if "evs \<noteq> [] \<and> ret_of (last evs) <s 0"
    using that E(4) last_progress by (cases out) (auto simp: word_sless_alt)
  have b: "out = Inl AssertionFailed" if "evs \<noteq> [] \<and> ret_of (last evs) = 0"
    using that E(4) last_progress by (cases out) auto
  have c: "out = Inr len \<or> out = Inl AssertionFailed" if "list_all progress evs"
    using that E(4) last_progress by (cases out) (auto simp: word_sless_alt)
  show "\<exists>evs. trace s' = trace s @ evs \<and> list_all is_write evs \<and> list_all progress (butlast evs) \<and>
         (evs \<noteq> [] \<and> ret_of (last evs) <s 0 \<longrightarrow> out = Inr (ret_of (last evs))) \<and>
         (evs \<noteq> [] \<and> ret_of (last evs) = 0 \<longrightarrow> out = Inl AssertionFailed) \<and>
         (list_all progress evs \<longrightarrow> out = Inr len \<or> out = Inl AssertionFailed)"
    using E(1-3) a b c by (intro exI [of _ evs]) blast
next
  assume "tcp_write_bounded rt"
  from WriteFull_loop_ends [OF this, of 0 len buf nt poll s]
  show "\<exists>y. WriteFull rt buf len nt poll s = Some y"
    by (simp add: WriteFull_def)
qed

theorem WriteFull_negative_or_fatal_witness:
  "WriteFull_loop scripted (Caller 0) 3 False False 0 (world0 [(0, [])] [] [1, 2, 3]) =
     Some (Inl AssertionFailed,
           snd (Write scripted (Caller 0) 3 False False (world0 [(0, [])] [] [1, 2, 3]))) \<and>
   WriteFull_loop scripted (Caller 0) 3 False False 0 (world0 [(- 5, [])] [] [1, 2, 3]) =
     Some (Inr (- 5),
           snd (Write scripted (Caller 0) 3 False False (world0 [(- 5, [])] [] [1, 2, 3]))) \<and>
   map_option (\<lambda>(out, s'). (out, trace s'))
     (WriteFull scripted (Caller 0) 3 False False (world0 [(2, []), (0, [])] [] [1, 2, 3])) =
     Some (Inl AssertionFailed, [CallWrite 3 False False 2, CallWrite 1 False False 0]) \<and>
   tcp_write_bounded (pipe 2) \<and>
   (\<exists>y. WriteFull (pipe 2) (Caller 0) 3 False False (world0 [] [] [1, 2, 3]) = Some y)"
proof -
  note T = WriteFull_negative_or_fatal
  have z: "Write scripted (Caller 0) 3 False False (world0 [(0, [])] [] [1, 2, 3]) =
      (0, snd (Write scripted (Caller 0) 3 False False (world0 [(0, [])] [] [1, 2, 3])))"
    by (simp add: Write_def scripted_def world0_def)
  have m: "Write scripted (Caller 0) 3 False False (world0 [(- 5, [])] [] [1, 2, 3]) =
      (- 5, snd (Write scripted (Caller 0) 3 False False (world0 [(- 5, [])] [] [1, 2, 3])))"
    by (simp add: Write_def scripted_def world0_def)
  have neg: "(- 5 :: ssize_t) <s 0"
    by (simp add: word_sless_alt)
  have lt: "(0 :: size_t) < 3"
    by simp
  have 1: "WriteFull_loop scripted (Caller 0) 3 False False 0 (world0 [(0, [])] [] [1, 2, 3]) =
     Some (Inl AssertionFailed,
           snd (Write scripted (Caller 0) 3 False False (world0 [(0, [])] [] [1, 2, 3])))"
    using T [of 3 scripted "Caller 0" False False, THEN conjunct1, rule_format,
        of 0 "world0 [(0, [])] [] [1, 2, 3]" 0
          "snd (Write scripted (Caller 0) 3 False False (world0 [(0, [])] [] [1, 2, 3]))"]
      z lt by simp
  have 2: "WriteFull_loop scripted (Caller 0) 3 False False 0 (world0 [(- 5, [])] [] [1, 2, 3]) =
     Some (Inr (- 5),
           snd (Write scripted (Caller 0) 3 False False (world0 [(- 5, [])] [] [1, 2, 3])))"
    using T [of 3 scripted "Caller 0" False False, THEN conjunct1, rule_format,
        of 0 "world0 [(- 5, [])] [] [1, 2, 3]" "- 5"
          "snd (Write scripted (Caller 0) 3 False False (world0 [(- 5, [])] [] [1, 2, 3]))"]
      m lt neg by simp
  have 3: "map_option (\<lambda>(out, s'). (out, trace s'))
     (WriteFull scripted (Caller 0) 3 False False (world0 [(2, []), (0, [])] [] [1, 2, 3])) =
     Some (Inl AssertionFailed, [CallWrite 3 False False 2, CallWrite 1 False False 0])"
    by code_simp
  have 4: "tcp_write_bounded (pipe 2)"
    by (rule pipe_write_bounded)
  from T [of 3 "pipe 2" "Caller 0" False False "world0 [] [] [1, 2, 3]"] 4
  have 5: "\<exists>y. WriteFull (pipe 2) (Caller 0) 3 False False (world0 [] [] [1, 2, 3]) = Some y"
    by blast
  from 1 2 3 4 5 show ?thesis by blast
qed

text \<open>
  C4. For a span of static extent with at least two segments whose lengths
  sum to at most 128, \<^verbatim>\<open>ReadvFull\<close> is one \<^verbatim>\<open>ReadFull\<close> of the total length into the
  scratch array followed, when that call returned, by the index-wise scatter:
  for each index \<open>i\<close> in list order, a copy of the scratch range
  \<open>[offset_of xs i, offset_of xs i + len i)\<close> into segment \<open>i\<close>. The scatter leaves the
  scratch array as it is, and when the segments share no byte each segment
  ends up holding exactly its scratch range.
\<close>

theorem ReadvFull_small_total:
  assumes "2 \<le> length xs" and "pending xs \<le> 128"
  shows "ReadvFull rt (Static xs) nt poll (s :: 'c world) =
           (case ReadFull rt (Scratch 0) (of_nat (pending xs)) nt poll s of
              None \<Rightarrow> None
            | Some (Inl f, s1) \<Rightarrow> Some (Inl f, s1)
            | Some (Inr ret, s1) \<Rightarrow> Some (Inr ret, scatter_by_index xs s1)) \<and>
         (\<forall>s1 :: 'c world. conn_buf (scatter_by_index xs s1) = conn_buf s1 \<and>
            (disjoint_segs xs \<longrightarrow>
               (\<forall>i < length xs. seg_bytes (scatter_by_index xs s1) (xs ! i) =
                  load (Scratch (offset_of xs i)) (unat (iov_len (xs ! i))) s1)))"
proof (intro conjI allI impI)
  from assms(2) have small: "pending xs < 2 ^ 64"
    by simp
  note idx = scatter_to_index_wise [OF small]
  have thresh: "total_len xs \<le> kIOVCopyThresh"
    using assms(2) by (rule small_total)
  from assms(1) have "ReadvFull rt (Static xs) nt poll s =
           (case ReadFull rt (Scratch 0) (total_len xs) nt poll s of
              None \<Rightarrow> None
            | Some (Inl f, s1) \<Rightarrow> Some (Inl f, s1)
            | Some (Inr ret, s1) \<Rightarrow> Some (Inr ret, scatter_to (Scratch 0) xs s1))"
    by (simp add: ReadvFull_def thresh)
  then show "ReadvFull rt (Static xs) nt poll s =
           (case ReadFull rt (Scratch 0) (of_nat (pending xs)) nt poll s of
              None \<Rightarrow> None
            | Some (Inl f, s1) \<Rightarrow> Some (Inl f, s1)
            | Some (Inr ret, s1) \<Rightarrow> Some (Inr ret, scatter_by_index xs s1))"
    by (simp add: idx total_len_pending split: option.splits sum.splits)
  fix s1 :: "'c world"
  show "conn_buf (scatter_by_index xs s1) = conn_buf s1"
    by (simp add: idx [symmetric] scatter_to_def)
  fix i
  assume "disjoint_segs xs" and "i < length xs"
  with small scatter_segment [of xs 0 i 0 s1]
  show "seg_bytes (scatter_by_index xs s1) (xs ! i) =
      load (Scratch (offset_of xs i)) (unat (iov_len (xs ! i))) s1"
    by (simp add: idx [symmetric] scatter_to_def)
qed

theorem ReadvFull_small_total_witness:
  "2 \<le> length [\<lparr>iov_base = 30, iov_len = 2\<rparr>, \<lparr>iov_base = 40, iov_len = 3\<rparr>, \<lparr>iov_base = 50, iov_len = 1\<rparr>] \<and>
   pending [\<lparr>iov_base = 30, iov_len = 2\<rparr>, \<lparr>iov_base = 40, iov_len = 3\<rparr>, \<lparr>iov_base = 50, iov_len = 1\<rparr>] \<le> 128 \<and>
   disjoint_segs [\<lparr>iov_base = 30, iov_len = 2\<rparr>, \<lparr>iov_base = 40, iov_len = 3\<rparr>, \<lparr>iov_base = 50, iov_len = 1\<rparr>] \<and>
   map_option (\<lambda>(out, s'). (out, trace s',
       map (seg_bytes s') [\<lparr>iov_base = 30, iov_len = 2\<rparr>, \<lparr>iov_base = 40, iov_len = 3\<rparr>, \<lparr>iov_base = 50, iov_len = 1\<rparr>]))
     (ReadvFull (pipe 4) (Static [\<lparr>iov_base = 30, iov_len = 2\<rparr>, \<lparr>iov_base = 40, iov_len = 3\<rparr>, \<lparr>iov_base = 50, iov_len = 1\<rparr>])
        False False (world0 [97, 98, 99, 100, 101, 102] [] [])) =
   Some (Inr 6, [CallRead 6 False False 4, CallRead 2 False False 2], [[97, 98], [99, 100, 101], [102]])"
proof -
  let ?xs = "[\<lparr>iov_base = 30, iov_len = 2\<rparr>, \<lparr>iov_base = 40, iov_len = 3\<rparr>, \<lparr>iov_base = 50, iov_len = 1\<rparr>]"
  let ?s = "world0 [97, 98, 99, 100, 101, 102] [] [] :: byte list world"
  have a: "2 \<le> length ?xs" by simp
  have b: "pending ?xs \<le> 128" by simp
  have c: "disjoint_segs ?xs" by (simp add: apart_def)
  have "map_option (\<lambda>(out, s'). (out, trace s', map (seg_bytes s') ?xs))
     (case ReadFull (pipe 4) (Scratch 0) (of_nat (pending ?xs)) False False ?s of
        None \<Rightarrow> None
      | Some (Inl f, s1) \<Rightarrow> Some (Inl f, s1)
      | Some (Inr ret, s1) \<Rightarrow> Some (Inr ret, scatter_by_index ?xs s1)) =
     Some (Inr 6, [CallRead 6 False False 4, CallRead 2 False False 2], [[97, 98], [99, 100, 101], [102]])"
    by code_simp
  with ReadvFull_small_total [OF a b, of "pipe 4" False False ?s, THEN conjunct1]
  have "map_option (\<lambda>(out, s'). (out, trace s', map (seg_bytes s') ?xs))
     (ReadvFull (pipe 4) (Static ?xs) False False ?s) =
     Some (Inr 6, [CallRead 6 False False 4, CallRead 2 False False 2], [[97, 98], [99, 100, 101], [102]])"
    by (simp only:)
  with a b c show ?thesis by (intro conjI)
qed

text \<open>
  C5. For a span of static extent with at least two segments whose lengths
  sum to at most 128, \<^verbatim>\<open>WritevFull\<close> first gathers index-wise (for each index \<open>i\<close> in
  list order, a copy of segment \<open>i\<close> to the scratch range that starts at
  \<open>offset_of xs i\<close>) and then is one \<^verbatim>\<open>WriteFull\<close> of the scratch array with the total
  length, whose result it returns. After the gather the scratch array starts
  with the segments' bytes in list order, each segment at its offset, and the
  caller's memory is as it was. The gather undoes the scatter and the scatter
  the gather: scattering the same segments back changes nothing, and so does
  gathering again what was scattered to segments that share no byte.
\<close>

theorem WritevFull_small_total:
  assumes "2 \<le> length xs" and "pending xs \<le> 128"
  shows "WritevFull rt (Static xs) nt poll (s :: 'c world) =
           WriteFull rt (Scratch 0) (of_nat (pending xs)) nt poll (gather_by_index xs s) \<and>
         mem (gather_by_index xs s) = mem s \<and>
         load (Scratch 0) (pending xs) (gather_by_index xs s) = concat (map (seg_bytes s) xs) \<and>
         (\<forall>i < length xs. load (Scratch (offset_of xs i)) (unat (iov_len (xs ! i))) (gather_by_index xs s) =
            seg_bytes s (xs ! i)) \<and>
         scatter_by_index xs (gather_by_index xs s) = gather_by_index xs s \<and>
         (disjoint_segs xs \<longrightarrow> gather_by_index xs (scatter_by_index xs s) = scatter_by_index xs s)"
proof (intro conjI allI impI)
  from assms(2) have small: "pending xs < 2 ^ 64"
    by simp
  note idx = gather_from_index_wise [OF small, symmetric]
  have thresh: "total_len xs \<le> kIOVCopyThresh"
    using assms(2) by (rule small_total)
  from assms(1) have "WritevFull rt (Static xs) nt poll s =
      WriteFull rt (Scratch 0) (total_len xs) nt poll (gather_from (Scratch 0) xs s)"
    by (simp add: WritevFull_def thresh)
  then show "WritevFull rt (Static xs) nt poll s =
      WriteFull rt (Scratch 0) (of_nat (pending xs)) nt poll (gather_by_index xs s)"
    by (simp add: idx total_len_pending)
  show "mem (gather_by_index xs s) = mem s"
    by (simp add: idx gather_from_def)
  from small gather_concat [of 0 xs 0 s]
  show "load (Scratch 0) (pending xs) (gather_by_index xs s) = concat (map (seg_bytes s) xs)"
    by (simp add: idx gather_from_def)
  from small scatter_after_gather [of xs s]
  show "scatter_by_index xs (gather_by_index xs s) = gather_by_index xs s"
    by (simp add: idx scatter_to_index_wise)
  show "gather_by_index xs (scatter_by_index xs s) = scatter_by_index xs s" if "disjoint_segs xs"
    using gather_after_scatter [OF small that, of s]
    by (simp add: gather_from_index_wise [OF small] scatter_to_index_wise [OF small])
  fix i
  assume "i < length xs"
  with small gather_segment [of 0 xs i 0 s]
  show "load (Scratch (offset_of xs i)) (unat (iov_len (xs ! i))) (gather_by_index xs s) =
      seg_bytes s (xs ! i)"
    by (simp add: idx gather_from_def)
qed

theorem WritevFull_small_total_witness:
  "2 \<le> length [\<lparr>iov_base = 0, iov_len = 2\<rparr>, \<lparr>iov_base = 10, iov_len = 3\<rparr>, \<lparr>iov_base = 20, iov_len = 1\<rparr>] \<and>
   pending [\<lparr>iov_base = 0, iov_len = 2\<rparr>, \<lparr>iov_base = 10, iov_len = 3\<rparr>, \<lparr>iov_base = 20, iov_len = 1\<rparr>] \<le> 128 \<and>
   map_option (\<lambda>(out, s'). (out, trace s', conn_c s', load (Scratch 0) 6 s'))
     (WritevFull (pipe 4) (Static [\<lparr>iov_base = 0, iov_len = 2\<rparr>, \<lparr>iov_base = 10, iov_len = 3\<rparr>, \<lparr>iov_base = 20, iov_len = 1\<rparr>])
        False False
        (world0 [] [] [97, 98, 0, 0, 0, 0, 0, 0, 0, 0, 99, 100, 101, 0, 0, 0, 0, 0, 0, 0, 102])) =
   Some (Inr 6, [CallWrite 6 False False 4, CallWrite 2 False False 2],
         [97, 98, 99, 100, 101, 102], [97, 98, 99, 100, 101, 102])"
proof -
  let ?xs = "[\<lparr>iov_base = 0, iov_len = 2\<rparr>, \<lparr>iov_base = 10, iov_len = 3\<rparr>, \<lparr>iov_base = 20, iov_len = 1\<rparr>]"
  let ?s = "world0 [] [] [97, 98, 0, 0, 0, 0, 0, 0, 0, 0, 99, 100, 101, 0, 0, 0, 0, 0, 0, 0, 102]
    :: byte list world"
  have a: "2 \<le> length ?xs" by simp
  have b: "pending ?xs \<le> 128" by simp
  have "map_option (\<lambda>(out, s'). (out, trace s', conn_c s', load (Scratch 0) 6 s'))
     (WriteFull (pipe 4) (Scratch 0) (of_nat (pending ?xs)) False False (gather_by_index ?xs ?s)) =
     Some (Inr 6, [CallWrite 6 False False 4, CallWrite 2 False False 2],
         [97, 98, 99, 100, 101, 102], [97, 98, 99, 100, 101, 102])"
    by code_simp
  with WritevFull_small_total [OF a b, of "pipe 4" False False ?s, THEN conjunct1]
  have "map_option (\<lambda>(out, s'). (out, trace s', conn_c s', load (Scratch 0) 6 s'))
     (WritevFull (pipe 4) (Static ?xs) False False ?s) =
     Some (Inr 6, [CallWrite 6 False False 4, CallWrite 2 False False 2],
         [97, 98, 99, 100, 101, 102], [97, 98, 99, 100, 101, 102])"
    by (simp only:)
  with a b show ?thesis by (intro conjI)
qed

text \<open>
  C6. Let the source segments hold the payload \<open>bs\<close> (their bytes, in list
  order, are \<open>bs\<close>) and let the destination segments have lengths that sum to
  the length of \<open>bs\<close>, at most 128. The gather writes exactly the first
  \<open>length bs\<close> bytes of the scratch array, which then are \<open>bs\<close>, and leaves the
  caller's memory alone. The scatter that follows is the index-wise one: what
  it copies out, index by index in list order, is \<open>bs\<close>; it writes into the
  destination segments only and leaves the scratch array alone. When the
  destination segments share no byte, their bytes in list order are \<open>bs\<close>
  afterwards, whatever the two partitions of the length are.
\<close>

theorem gather_scatter_fidelity:
  assumes "concat (map (seg_bytes s) src) = bs"
    and "pending dst = length bs" and "length bs \<le> 128"
  shows "load (Scratch 0) (length bs) (gather_from (Scratch 0) src s) = bs \<and>
         mem (gather_from (Scratch 0) src s) = mem s \<and>
         (\<forall>x. length bs \<le> x \<longrightarrow> conn_buf (gather_from (Scratch 0) src s) x = conn_buf s x) \<and>
         scatter_to (Scratch 0) dst (gather_from (Scratch 0) src s) =
           scatter_by_index dst (gather_from (Scratch 0) src s) \<and>
         concat (map (\<lambda>i. load (Scratch (offset_of dst i)) (unat (iov_len (dst ! i)))
                        (gather_from (Scratch 0) src s)) [0..<length dst]) = bs \<and>
         conn_buf (scatter_to (Scratch 0) dst (gather_from (Scratch 0) src s)) =
           conn_buf (gather_from (Scratch 0) src s) \<and>
         (\<forall>a. (\<forall>v \<in> set dst. a < iov_base v \<or> iov_base v + unat (iov_len v) \<le> a) \<longrightarrow>
            mem (scatter_to (Scratch 0) dst (gather_from (Scratch 0) src s)) a = mem s a) \<and>
         (disjoint_segs dst \<longrightarrow>
            concat (map (seg_bytes (scatter_to (Scratch 0) dst (gather_from (Scratch 0) src s))) dst) = bs)"
proof -
  let ?g = "gather_from (Scratch 0) src s"
  from assms(1) have len: "pending src = length bs"
    using length_concat_segs [of s src] by simp
  with assms(3) have nw: "unat (0 :: size_t) + pending src < 2 ^ 64"
    by simp
  from assms(2,3) have nw': "unat (0 :: size_t) + pending dst < 2 ^ 64"
    by simp
  from gather_concat [OF nw, of 0 s] have g: "load (Scratch 0) (length bs) ?g = bs"
    by (simp add: gather_from_def len assms(1))
  have m: "mem ?g = mem s"
    by (simp add: gather_from_def)
  have rest: "conn_buf ?g x = conn_buf s x" if "length bs \<le> x" for x
    using gather_outside [OF nw, of x 0 s] that by (simp add: gather_from_def len)
  from nw' have idx: "scatter_to (Scratch 0) dst ?g = scatter_by_index dst ?g"
    by (intro scatter_to_index_wise) simp
  from concat_ranges [of "conn_buf ?g" 0 dst] g
  have moved: "concat (map (\<lambda>i. load (Scratch (offset_of dst i)) (unat (iov_len (dst ! i))) ?g)
      [0..<length dst]) = bs"
    by (simp add: assms(2))
  have b: "conn_buf (scatter_to (Scratch 0) dst ?g) = conn_buf ?g"
    by (simp add: scatter_to_def)
  have out: "mem (scatter_to (Scratch 0) dst ?g) a = mem s a"
    if "\<forall>v \<in> set dst. a < iov_base v \<or> iov_base v + unat (iov_len v) \<le> a" for a
    using scatter_outside [OF that, of 0 0 ?g] by (simp add: scatter_to_def m)
  have r: "concat (map (seg_bytes (scatter_to (Scratch 0) dst ?g)) dst) = bs" if "disjoint_segs dst"
    using scatter_concat [OF that nw', of 0 ?g] g by (simp add: scatter_to_def assms(2))
  from g m rest idx moved b out r show ?thesis by blast
qed

theorem gather_scatter_fidelity_witness:
  "concat (map (seg_bytes (world0 () [] [3, 1, 4, 1, 5, 9, 2, 6]))
     [\<lparr>iov_base = 0, iov_len = 3\<rparr>, \<lparr>iov_base = 3, iov_len = 1\<rparr>, \<lparr>iov_base = 4, iov_len = 4\<rparr>]) =
     [3, 1, 4, 1, 5, 9, 2, 6] \<and>
   disjoint_segs [\<lparr>iov_base = 40, iov_len = 1\<rparr>, \<lparr>iov_base = 30, iov_len = 7\<rparr>] \<and>
   concat (map (seg_bytes (scatter_to (Scratch 0) [\<lparr>iov_base = 40, iov_len = 1\<rparr>, \<lparr>iov_base = 30, iov_len = 7\<rparr>]
       (gather_from (Scratch 0)
          [\<lparr>iov_base = 0, iov_len = 3\<rparr>, \<lparr>iov_base = 3, iov_len = 1\<rparr>, \<lparr>iov_base = 4, iov_len = 4\<rparr>]
          (world0 () [] [3, 1, 4, 1, 5, 9, 2, 6]))))
     [\<lparr>iov_base = 40, iov_len = 1\<rparr>, \<lparr>iov_base = 30, iov_len = 7\<rparr>]) = [3, 1, 4, 1, 5, 9, 2, 6]"
proof -
  let ?src = "[\<lparr>iov_base = 0, iov_len = 3\<rparr>, \<lparr>iov_base = 3, iov_len = 1\<rparr>, \<lparr>iov_base = 4, iov_len = 4\<rparr>]"
  let ?dst = "[\<lparr>iov_base = 40, iov_len = 1\<rparr>, \<lparr>iov_base = 30, iov_len = 7\<rparr>]"
  let ?s = "world0 () [] [3, 1, 4, 1, 5, 9, 2, 6]"
  let ?bs = "[3, 1, 4, 1, 5, 9, 2, 6] :: byte list"
  have a: "concat (map (seg_bytes ?s) ?src) = ?bs"
    by code_simp
  have b: "pending ?dst = length ?bs" by simp
  have c: "length ?bs \<le> 128" by simp
  have d: "disjoint_segs ?dst" by (simp add: apart_def)
  from gather_scatter_fidelity [OF a b c] d
  have "concat (map (seg_bytes (scatter_to (Scratch 0) ?dst (gather_from (Scratch 0) ?src ?s))) ?dst) = ?bs"
    by blast
  with a d show ?thesis by (intro conjI)
qed

text \<open>
  C7. Unless the call takes the small-total path, \<^verbatim>\<open>ReadvFull\<close> and \<^verbatim>\<open>WritevFull\<close>
  end with the scratch array as it was: on the single-segment path, on the raw
  vectored path (a static extent whose total is over the threshold) and for
  every span of dynamic extent.
\<close>

theorem scratch_only_on_small_total_path:
  assumes "\<not> small_total_path iov"
  shows "(\<forall>y. ReadvFull rt iov nt poll s = Some y \<longrightarrow> conn_buf (snd y) = conn_buf s) \<and>
         (\<forall>y. WritevFull rt iov nt poll s = Some y \<longrightarrow> conn_buf (snd y) = conn_buf s)"
proof (cases iov)
  case (Dynamic xs)
  then show ?thesis
    using ReadvFullRaw_loop_buf [of rt nt poll _ xs s] WritevFullRaw_loop_buf [of rt nt poll _ xs s]
    by (simp add: ReadvFull_def WritevFull_def ReadvFullRaw_def WritevFullRaw_def)
next
  case (Static xs)
  consider (one) "length xs = 1" | (none) "xs = []"
    | (big) "length xs \<noteq> 1" "\<not> total_len xs \<le> kIOVCopyThresh"
    using assms Static by (cases xs) (auto simp: small_total_path_def)
  then show ?thesis
  proof cases
    case one
    then show ?thesis
      using Static ReadFull_loop_Caller_buf [of rt "Caller (iov_base (xs ! 0))" "iov_len (xs ! 0)" nt poll 0 s]
        WriteFull_loop_memory [of rt "Caller (iov_base (xs ! 0))" "iov_len (xs ! 0)" nt poll 0 s]
      by (simp add: ReadvFull_def WritevFull_def ReadFull_def WriteFull_def)
  next
    case none
    have r: "ReadFull rt (Scratch 0) 0 nt poll s = Some (Inr 0, s)"
      unfolding ReadFull_def by (subst ReadFull_loop.simps) simp
    have w: "WriteFull rt (Scratch 0) 0 nt poll s = Some (Inr 0, s)"
      unfolding WriteFull_def by (subst WriteFull_loop.simps) simp
    from none Static r w show ?thesis
      by (auto simp: ReadvFull_def WritevFull_def total_len_def scatter_to_def gather_from_def)
  next
    case big
    then show ?thesis
      using Static ReadvFullRaw_loop_buf [of rt nt poll _ xs s] WritevFullRaw_loop_buf [of rt nt poll _ xs s]
      by (simp add: ReadvFull_def WritevFull_def ReadvFullRaw_def WritevFullRaw_def)
  qed
qed

theorem scratch_only_on_small_total_path_witness:
  "\<not> small_total_path (Dynamic [\<lparr>iov_base = 30, iov_len = 2\<rparr>, \<lparr>iov_base = 40, iov_len = 1\<rparr>]) \<and>
   (\<exists>y. ReadvFull (pipe 2) (Dynamic [\<lparr>iov_base = 30, iov_len = 2\<rparr>, \<lparr>iov_base = 40, iov_len = 1\<rparr>])
           False False (world0 [5, 6, 7] [9, 9, 9] []) = Some y \<and>
        fst y = Inr 3 \<and>
        conn_buf (snd y) = conn_buf (world0 [5, 6, 7] [9, 9, 9] [] :: byte list world))"
proof -
  let ?iov = "Dynamic [\<lparr>iov_base = 30, iov_len = 2\<rparr>, \<lparr>iov_base = 40, iov_len = 1\<rparr>]"
  let ?s = "world0 [5, 6, 7] [9, 9, 9] [] :: byte list world"
  have n: "\<not> small_total_path ?iov"
    by (simp add: small_total_path_def)
  have "map_option fst (ReadvFull (pipe 2) ?iov False False ?s) = Some (Inr 3)"
    by code_simp
  then obtain y where y: "ReadvFull (pipe 2) ?iov False False ?s = Some y" "fst y = Inr 3"
    unfolding map_option_eq_Some by blast
  from scratch_only_on_small_total_path [OF n, of "pipe 2" False False ?s, THEN conjunct1,
      rule_format, OF y(1)]
  have "conn_buf (snd y) = conn_buf ?s" .
  with y have "\<exists>y. ReadvFull (pipe 2) ?iov False False ?s = Some y \<and>
        fst y = Inr 3 \<and> conn_buf (snd y) = conn_buf ?s"
    by (intro exI [of _ y] conjI)
  with n show ?thesis by (rule conjI)
qed

text \<open>
  C8. On the small-total path of \<^verbatim>\<open>ReadvFull\<close> the scatter follows the scalar
  \<^verbatim>\<open>ReadFull\<close> whatever value that call returned, a zero or negative one
  included: the value is returned and the caller's segments are overwritten
  from the scratch array as it stands after the call (each segment with its
  scratch range, when the segments share no byte), so what is there from
  earlier calls or from a partial read reaches the caller's memory together
  with the end-of-stream or error value.
\<close>

theorem ReadvFull_scatters_whatever_was_read:
  assumes "length xs \<noteq> 1" and "total_len xs \<le> kIOVCopyThresh"
    and "ReadFull rt (Scratch 0) (total_len xs) nt poll s = Some (Inr ret, s1)"
  shows "ReadvFull rt (Static xs) nt poll s = Some (Inr ret, scatter_to (Scratch 0) xs s1) \<and>
         (pending xs \<le> 128 \<and> disjoint_segs xs \<longrightarrow>
            (\<forall>i < length xs. seg_bytes (scatter_to (Scratch 0) xs s1) (xs ! i) =
               load (Scratch (offset_of xs i)) (unat (iov_len (xs ! i))) s1))"
proof (intro conjI allI impI)
  from assms show "ReadvFull rt (Static xs) nt poll s = Some (Inr ret, scatter_to (Scratch 0) xs s1)"
    by (simp add: ReadvFull_def)
  fix i
  assume "pending xs \<le> 128 \<and> disjoint_segs xs" and "i < length xs"
  with scatter_segment [of xs 0 i 0 s1]
  show "seg_bytes (scatter_to (Scratch 0) xs s1) (xs ! i) =
      load (Scratch (offset_of xs i)) (unat (iov_len (xs ! i))) s1"
    by (simp add: scatter_to_def)
qed

theorem ReadvFull_scatters_whatever_was_read_witness:
  "map (seg_bytes (world0 [] [9, 8, 7, 6, 5, 4] [] :: byte list world))
     [\<lparr>iov_base = 30, iov_len = 2\<rparr>, \<lparr>iov_base = 40, iov_len = 3\<rparr>, \<lparr>iov_base = 50, iov_len = 1\<rparr>] =
     [[0, 0], [0, 0, 0], [0]] \<and>
   (\<exists>s'. ReadvFull (pipe 4) (Static [\<lparr>iov_base = 30, iov_len = 2\<rparr>, \<lparr>iov_base = 40, iov_len = 3\<rparr>, \<lparr>iov_base = 50, iov_len = 1\<rparr>])
           False False (world0 [] [9, 8, 7, 6, 5, 4] []) = Some (Inr 0, s') \<and>
      map (seg_bytes s') [\<lparr>iov_base = 30, iov_len = 2\<rparr>, \<lparr>iov_base = 40, iov_len = 3\<rparr>, \<lparr>iov_base = 50, iov_len = 1\<rparr>] =
        [[9, 8], [7, 6, 5], [4]])"
proof -
  let ?xs = "[\<lparr>iov_base = 30, iov_len = 2\<rparr>, \<lparr>iov_base = 40, iov_len = 3\<rparr>, \<lparr>iov_base = 50, iov_len = 1\<rparr>]"
  let ?s = "world0 [] [9, 8, 7, 6, 5, 4] [] :: byte list world"
  have before: "map (seg_bytes ?s) ?xs = [[0, 0], [0, 0, 0], [0]]"
    by code_simp
  have a: "length ?xs \<noteq> 1" by simp
  have b: "total_len ?xs \<le> kIOVCopyThresh"
    by (simp add: total_len_def kIOVCopyThresh_def)
  have "map_option (\<lambda>(out, s1). (out, map (seg_bytes (scatter_to (Scratch 0) ?xs s1)) ?xs))
      (ReadFull (pipe 4) (Scratch 0) (total_len ?xs) False False ?s) =
      Some (Inr 0, [[9, 8], [7, 6, 5], [4]])"
    by code_simp
  then obtain s1 where c: "ReadFull (pipe 4) (Scratch 0) (total_len ?xs) False False ?s = Some (Inr 0, s1)"
    and after: "map (seg_bytes (scatter_to (Scratch 0) ?xs s1)) ?xs = [[9, 8], [7, 6, 5], [4]]"
    unfolding map_option_eq_Some by (auto simp only: prod.case prod.inject split: prod.splits)
  from ReadvFull_scatters_whatever_was_read [OF a b c, THEN conjunct1] after
  have "\<exists>s'. ReadvFull (pipe 4) (Static ?xs) False False ?s = Some (Inr 0, s') \<and>
      map (seg_bytes s') ?xs = [[9, 8], [7, 6, 5], [4]]"
    by (intro exI [of _ "scatter_to (Scratch 0) ?xs s1"] conjI)
  with before show ?thesis by (rule conjI)
qed

text \<open>
  C9. With length 0 both \<^verbatim>\<open>ReadFull\<close> and \<^verbatim>\<open>WriteFull\<close> return 0 in the state they
  were called in: no byte moved and no call of the runtime made. A \<^verbatim>\<open>ReadFull\<close>
  of a positive length whose first \<^verbatim>\<open>Read\<close> meets the closed stream (returns 0) also
  returns 0, so the two cannot be told apart by the value returned.
\<close>

theorem full_transfer_of_nothing:
  "ReadFull rt buf 0 nt poll s = Some (Inr 0, s) \<and>
   WriteFull rt buf 0 nt poll s = Some (Inr 0, s) \<and>
   (\<forall>len s1. 0 < len \<longrightarrow> Read rt buf len nt poll s = (0, s1) \<longrightarrow>
      ReadFull rt buf len nt poll s = Some (Inr 0, s1))"
proof (intro conjI allI impI)
  show "ReadFull rt buf 0 nt poll s = Some (Inr 0, s)"
    unfolding ReadFull_def by (subst ReadFull_loop.simps) simp
  show "WriteFull rt buf 0 nt poll s = Some (Inr 0, s)"
    unfolding WriteFull_def by (subst WriteFull_loop.simps) simp
  fix len :: size_t and s1
  assume "0 < len" and "Read rt buf len nt poll s = (0, s1)"
  then show "ReadFull rt buf len nt poll s = Some (Inr 0, s1)"
    unfolding ReadFull_def by (subst ReadFull_loop.simps) simp
qed

theorem full_transfer_of_nothing_witness:
  "(0 :: size_t) < 3 \<and>
   fst (Read (pipe 2) (Caller 0) 3 False False (world0 [] [] [])) = 0 \<and>
   map_option fst (ReadFull (pipe 2) (Caller 0) 3 False False (world0 [] [] [])) = Some (Inr 0) \<and>
   map_option fst (ReadFull (pipe 2) (Caller 0) 0 False False (world0 [] [] [])) = Some (Inr 0)"
proof -
  have lt: "(0 :: size_t) < 3" by simp
  have r: "fst (Read (pipe 2) (Caller 0) 3 False False (world0 [] [] [])) = 0"
    by (simp add: Read_def pipe_def world0_def)
  then have "Read (pipe 2) (Caller 0) 3 False False (world0 [] [] []) =
      (0, snd (Read (pipe 2) (Caller 0) 3 False False (world0 [] [] [])))"
    by (simp add: prod_eq_iff)
  with full_transfer_of_nothing [of "pipe 2" "Caller 0" False False "world0 [] [] []"] lt
  have "ReadFull (pipe 2) (Caller 0) 3 False False (world0 [] [] []) =
      Some (Inr 0, snd (Read (pipe 2) (Caller 0) 3 False False (world0 [] [] [])))"
    and "ReadFull (pipe 2) (Caller 0) 0 False False (world0 [] [] []) = Some (Inr 0, world0 [] [] [])"
    by blast+
  with lt r show ?thesis by simp
qed

text \<open>
  C10. \<^verbatim>\<open>UdpConn::Read\<close> and \<^verbatim>\<open>UdpConn::Write\<close> called with \<^verbatim>\<open>nt\<close> or \<^verbatim>\<open>poll\<close> set end in
  \<^verbatim>\<open>BUG_ON\<close> with the state as it was: \<^verbatim>\<open>udp_read\<close> and \<^verbatim>\<open>udp_write\<close> are not called,
  and they have no parameter that could take a hint. With both hints clear the
  call is the UDP primitive's. On a \<^verbatim>\<open>TcpConn\<close>, \<^verbatim>\<open>Read\<close> and \<^verbatim>\<open>Write\<close> hand both hints
  to the runtime.
\<close>

theorem UdpConn_hints_are_fatal:
  "(nt \<or> poll \<longrightarrow>
      UdpConn_Read urt a len nt poll u = (Inl BugOn, u) \<and>
      UdpConn_Write urt a len nt poll u = (Inl BugOn, u)) \<and>
   fst (UdpConn_Read urt a len False False u) = Inr (fst (udp_read urt (udp_c u) len)) \<and>
   udp_trace (snd (UdpConn_Read urt a len False False u)) =
     udp_trace u @ [CallUdpRead len (fst (udp_read urt (udp_c u) len))] \<and>
   fst (UdpConn_Write urt a len False False u) =
     Inr (fst (udp_write urt (udp_c u) (peek (udp_mem u) a (unat len)))) \<and>
   udp_trace (snd (UdpConn_Write urt a len False False u)) =
     udp_trace u @ [CallUdpWrite len (fst (udp_write urt (udp_c u) (peek (udp_mem u) a (unat len))))] \<and>
   fst (Read rt buf len nt poll s) = fst (tcp_read rt (conn_c s) len nt poll) \<and>
   trace (snd (Read rt buf len nt poll s)) =
     trace s @ [CallRead len nt poll (fst (tcp_read rt (conn_c s) len nt poll))] \<and>
   fst (Write rt buf len nt poll s) = fst (tcp_write rt (conn_c s) (load buf (unat len) s) nt poll) \<and>
   trace (snd (Write rt buf len nt poll s)) =
     trace s @ [CallWrite len nt poll (fst (tcp_write rt (conn_c s) (load buf (unat len) s) nt poll))]"
  by (simp add: UdpConn_Read_def UdpConn_Write_def Read_def Write_def split: prod.splits)

theorem UdpConn_hints_are_fatal_witness:
  "UdpConn_Read udp_stub 0 4 True False (udp_world0 () [1, 2, 3, 4]) =
     (Inl BugOn, udp_world0 () [1, 2, 3, 4]) \<and>
   UdpConn_Write udp_stub 0 4 False True (udp_world0 () [1, 2, 3, 4]) =
     (Inl BugOn, udp_world0 () [1, 2, 3, 4]) \<and>
   fst (UdpConn_Write udp_stub 0 4 False False (udp_world0 () [1, 2, 3, 4])) = Inr 4"
proof -
  note T = UdpConn_hints_are_fatal [where urt = udp_stub and a = 0 and len = 4
      and u = "udp_world0 () [1, 2, 3, 4]" and rt = "pipe 2" and buf = "Caller 0"
      and s = "world0 [] [] []"]
  have "UdpConn_Read udp_stub 0 4 True False (udp_world0 () [1, 2, 3, 4]) =
     (Inl BugOn, udp_world0 () [1, 2, 3, 4])"
    using T [where nt = True and poll = False] by simp
  moreover have "UdpConn_Write udp_stub 0 4 False True (udp_world0 () [1, 2, 3, 4]) =
     (Inl BugOn, udp_world0 () [1, 2, 3, 4])"
    using T [where nt = False and poll = True] by simp
  moreover have "fst (UdpConn_Write udp_stub 0 4 False False (udp_world0 () [1, 2, 3, 4])) = Inr 4"
    using T [where nt = False and poll = False] by (simp add: udp_stub_def)
  ultimately show ?thesis by blast
qed


end
